theory Spec2Isabelle
  imports Complex_Main
begin

section \<open>Data model\<close>

text \<open>
  The development follows \<^verbatim>\<open>getResonanceShapes.py\<close>: the class \<^verbatim>\<open>ShapeStorage\<close>, the
  function \<^verbatim>\<open>LineShapePDF\<close> and the PDF/CDF loops of \<^verbatim>\<open>main\<close>.

  Python floats are modelled as exact reals: rounding, infinities and NaN are outside
  the model. Python ints (the masses) are \<open>int\<close>. A Python dict is an association list
  in insertion order whose keys are distinct; \<open>d[k]\<close> raises \<open>KeyError\<close> on a missing key.
\<close>

datatype error =
    InsufficientShapesError nat   \<comment> \<open>"Need at least 2 input shapes, n provided", \<open>sys.exit(1)\<close>\<close>
  | UnnormalizedShapeError int    \<comment> \<open>"Input shape for m = key GeV not normalized", \<open>sys.exit(3)\<close>\<close>
  | InconsistentBinningError      \<comment> \<open>"Bin counts differ among inputs/bin centers", \<open>sys.exit(2)\<close>\<close>
  | KeyError
  | IndexError
  | ValueError
  | ZeroDivisionError
  | NotFinite                     \<comment> \<open>numpy division by \<open>0.0\<close>: inf/nan, no real value\<close>

type_synonym shape_dict = "(int \<times> real list) list"

record ShapeStorage =
  shapes :: shape_dict
  binxcenters :: "real list"

definition keys :: "shape_dict \<Rightarrow> int list" where
  "keys d = map fst d"

definition dict_get :: "shape_dict \<Rightarrow> int \<Rightarrow> error + real list" where
  "dict_get d k = (case map_of d k of None \<Rightarrow> Inl KeyError | Some v \<Rightarrow> Inr v)"

section \<open>ShapeStorage.__init__\<close>

text \<open>
  The loop \<^verbatim>\<open>for key in self.shapes.keys()\<close>: each shape's sum is tested against the
  tolerance, then its length is appended to \<^verbatim>\<open>nbins\<close>.
\<close>

fun check_shapes :: "shape_dict \<Rightarrow> int list \<Rightarrow> nat list \<Rightarrow> error + nat list" where
  "check_shapes d [] nbins = Inr nbins"
| "check_shapes d (key # ks) nbins =
     (case dict_get d key of
        Inl e \<Rightarrow> Inl e
      | Inr v \<Rightarrow>
          (let norm = sum_list v in
           if abs (norm - 1.0) > 0.01 then Inl (UnnormalizedShapeError key)
           else check_shapes d ks (nbins @ [length v])))"

definition ShapeStorage_init :: "shape_dict \<Rightarrow> real list \<Rightarrow> error + ShapeStorage" where
  "ShapeStorage_init shp bxc =
     (if length shp < 2 then Inl (InsufficientShapesError (length shp))
      else
        (case check_shapes shp (keys shp) [length bxc] of
           Inl e \<Rightarrow> Inl e
         | Inr nbins \<Rightarrow>
             if length (remdups nbins) > 1 then Inl InconsistentBinningError
             else Inr \<lparr>shapes = shp, binxcenters = bxc\<rparr>))"

section \<open>LineShapePDF: the interpolation of the shape (lines 79 to 98)\<close>

text \<open>
  numpy arithmetic on two one-dimensional arrays: element by element when the lengths
  agree, broadcasting when one of them has length 1, \<open>ValueError\<close> otherwise.
\<close>

definition np_binop :: "(real \<Rightarrow> real \<Rightarrow> real) \<Rightarrow> real list \<Rightarrow> real list \<Rightarrow> error + real list" where
  "np_binop f a b =
     (if length a = length b then Inr (map2 f a b)
      else if length a = 1 then Inr (map (f (hd a)) b)
      else if length b = 1 then Inr (map (\<lambda>u. f u (hd b)) a)
      else Inl ValueError)"

text \<open>\<^verbatim>\<open>y = ((yh - yl) / float(mh - ml)) * float(mass - ml) + yl\<close>\<close>

definition blend :: "real list \<Rightarrow> real list \<Rightarrow> int \<Rightarrow> int \<Rightarrow> int \<Rightarrow> error + real list" where
  "blend yl yh ml mh mass =
     (case np_binop (-) yh yl of
        Inl e \<Rightarrow> Inl e
      | Inr d \<Rightarrow>
          if mh - ml = 0 then Inl NotFinite
          else np_binop (+) (map (\<lambda>u. (u / real_of_int (mh - ml)) * real_of_int (mass - ml)) d) yl)"

text \<open>Python's \<^verbatim>\<open>max\<close> and \<^verbatim>\<open>min\<close> of a list raise \<open>ValueError\<close> on the empty list.\<close>

definition py_max :: "int list \<Rightarrow> error + int" where
  "py_max xs = (case xs of [] \<Rightarrow> Inl ValueError | x # r \<Rightarrow> Inr (fold max r x))"

definition py_min :: "int list \<Rightarrow> error + int" where
  "py_min xs = (case xs of [] \<Rightarrow> Inl ValueError | x # r \<Rightarrow> Inr (fold min r x))"

definition warn_below :: string where
  "warn_below = ''** WARNING: ** Extrapolating below lowest input mass.''"

definition warn_above :: string where
  "warn_above = ''** WARNING: ** Extrapolating above highest input mass.''"

text \<open>
  The choice of the pair \<open>(ml, mh)\<close>, with the lines printed on the way.
  \<^verbatim>\<open>input_masses[0]\<close> and \<^verbatim>\<open>input_masses[-1]\<close> raise \<open>IndexError\<close> on an empty list,
  \<^verbatim>\<open>input_masses[1]\<close> and \<^verbatim>\<open>input_masses[-2]\<close> on a list shorter than 2.
\<close>

definition bracket :: "int list \<Rightarrow> int \<Rightarrow> error + (string list \<times> int \<times> int)" where
  "bracket input_masses mass =
     (if input_masses = [] then Inl IndexError
      else
        (let min_mass = hd input_masses; max_mass = last input_masses in
         if mass < min_mass then
           (if length input_masses < 2 then Inl IndexError
            else Inr ([warn_below], input_masses ! 0, input_masses ! 1))
         else if mass > max_mass then
           (if length input_masses < 2 then Inl IndexError
            else Inr ([warn_above], input_masses ! (length input_masses - 2),
                      input_masses ! (length input_masses - 1)))
         else
           (case py_max (filter (\<lambda>m. m < mass) input_masses) of
              Inl e \<Rightarrow> Inl e
            | Inr ml \<Rightarrow>
                (case py_min (filter (\<lambda>m. m > mass) input_masses) of
                   Inl e \<Rightarrow> Inl e
                 | Inr mh \<Rightarrow> Inr ([], ml, mh)))))"

text \<open>The curve \<open>y\<close> of \<^verbatim>\<open>LineShapePDF\<close>, with the printed lines.\<close>

definition interpolate :: "ShapeStorage \<Rightarrow> int \<Rightarrow> error + (string list \<times> real list)" where
  "interpolate S mass =
     (if mass \<in> set (keys (shapes S)) then
        (case dict_get (shapes S) mass of Inl e \<Rightarrow> Inl e | Inr y \<Rightarrow> Inr ([], y))
      else
        (case bracket (sort (keys (shapes S))) mass of
           Inl e \<Rightarrow> Inl e
         | Inr (out, ml, mh) \<Rightarrow>
             (case dict_get (shapes S) ml of
                Inl e \<Rightarrow> Inl e
              | Inr yl \<Rightarrow>
                  (case dict_get (shapes S) mh of
                     Inl e \<Rightarrow> Inl e
                   | Inr yh \<Rightarrow>
                       (case blend yl yh ml mh mass of
                          Inl e \<Rightarrow> Inl e
                        | Inr y \<Rightarrow> Inr (out, y))))))"

section \<open>Histograms\<close>

text \<open>
  Modelled from the spec: the histogram class \<^verbatim>\<open>TH1D\<close>, its axis and the integrator
  \<^verbatim>\<open>Math.Interpolator\<close> belong to the ROOT library and are not part of the sources.
  A histogram is the spec's DiscreteHistogram: an axis (fixed-width bins given by their
  number and range, or the list of bin edges) and a content for every cell, where cell
  \<open>0\<close> is the underflow, cells \<open>1..n\<close> are the bins and cell \<open>n + 1\<close> is the overflow.
  The accessors below follow the library's documented behaviour.
\<close>

datatype TAxis = FixBins nat real real | VarBins "real list"

record TH1D =
  axis :: TAxis
  contents :: "nat \<Rightarrow> real"

fun GetNbins :: "TAxis \<Rightarrow> nat" where
  "GetNbins (FixBins n lo hi) = n"
| "GetNbins (VarBins es) = length es - 1"

fun GetXmin :: "TAxis \<Rightarrow> real" where
  "GetXmin (FixBins n lo hi) = lo"
| "GetXmin (VarBins es) = hd es"

fun GetXmax :: "TAxis \<Rightarrow> real" where
  "GetXmax (FixBins n lo hi) = hi"
| "GetXmax (VarBins es) = last es"

definition binwidth :: "TAxis \<Rightarrow> real" where
  "binwidth ax = (GetXmax ax - GetXmin ax) / real (GetNbins ax)"

definition has_edge_array :: "TAxis \<Rightarrow> nat \<Rightarrow> bool" where
  "has_edge_array ax bin =
     (case ax of FixBins n lo hi \<Rightarrow> False | VarBins es \<Rightarrow> 1 \<le> bin \<and> bin \<le> GetNbins ax)"

fun edge_array :: "TAxis \<Rightarrow> real list" where
  "edge_array (FixBins n lo hi) = []"
| "edge_array (VarBins es) = es"

definition GetBinLowEdge :: "TAxis \<Rightarrow> nat \<Rightarrow> real" where
  "GetBinLowEdge ax bin =
     (if has_edge_array ax bin then edge_array ax ! (bin - 1)
      else GetXmin ax + (real bin - 1) * binwidth ax)"

definition GetBinUpEdge :: "TAxis \<Rightarrow> nat \<Rightarrow> real" where
  "GetBinUpEdge ax bin =
     (if has_edge_array ax bin then edge_array ax ! bin
      else GetXmin ax + real bin * binwidth ax)"

definition GetBinCenter :: "TAxis \<Rightarrow> nat \<Rightarrow> real" where
  "GetBinCenter ax bin =
     (if has_edge_array ax bin then
        edge_array ax ! (bin - 1) + 0.5 * (edge_array ax ! bin - edge_array ax ! (bin - 1))
      else GetXmin ax + (real bin - 1) * binwidth ax + 0.5 * binwidth ax)"

text \<open>
  \<^verbatim>\<open>FindBin\<close>: underflow below the range, overflow from the upper end on; inside, the
  bin by scaling for fixed bins, and by the position among the edges otherwise.
\<close>

definition FindBin :: "TAxis \<Rightarrow> real \<Rightarrow> nat" where
  "FindBin ax x =
     (if x < GetXmin ax then 0
      else if \<not> x < GetXmax ax then GetNbins ax + 1
      else
        (case ax of
           FixBins n lo hi \<Rightarrow> 1 + nat \<lfloor>real n * (x - lo) / (hi - lo)\<rfloor>
         | VarBins es \<Rightarrow> length (filter (\<lambda>e. e \<le> x) es)))"

definition new_TH1D :: "TAxis \<Rightarrow> TH1D" where
  "new_TH1D ax = \<lparr>axis = ax, contents = (\<lambda>b. 0)\<rparr>"

definition GetNbinsX :: "TH1D \<Rightarrow> nat" where
  "GetNbinsX h = GetNbins (axis h)"

definition GetBinContent :: "TH1D \<Rightarrow> nat \<Rightarrow> real" where
  "GetBinContent h bin = contents h (if bin > GetNbinsX h + 1 then GetNbinsX h + 1 else bin)"

definition SetBinContent :: "TH1D \<Rightarrow> nat \<Rightarrow> real \<Rightarrow> TH1D" where
  "SetBinContent h bin c =
     (if bin > GetNbinsX h + 1 then h else h\<lparr>contents := (contents h)(bin := c)\<rparr>)"

definition Integral :: "TH1D \<Rightarrow> real" where
  "Integral h = sum_list (map (contents h) [1..<GetNbinsX h + 1])"

definition Scale :: "TH1D \<Rightarrow> real \<Rightarrow> TH1D" where
  "Scale h c = h\<lparr>contents := (\<lambda>b. c * contents h b)\<rparr>"

text \<open>
  \<^verbatim>\<open>interpolator.Integ(a, b)\<close> after \<^verbatim>\<open>SetData(len(x), x, y)\<close>: the integral over \<open>[a, b]\<close>
  of the library's curve through the points \<open>(x, y)\<close>. The curve is a parameter of the
  model: the theorems hold for every such function.
\<close>

type_synonym integ_fn = "real list \<Rightarrow> real list \<Rightarrow> real \<Rightarrow> real \<Rightarrow> real"

section \<open>LineShapePDF: integration over the bins and normalisation (lines 103 to 116)\<close>

text \<open>
  The body of the loop over the bins. The division by \<^verbatim>\<open>float(mass)\<close> raises
  \<open>ZeroDivisionError\<close> when the mass is 0; \<^verbatim>\<open>binxcenters[0]\<close> raises \<open>IndexError\<close> on an
  empty grid.
\<close>

definition set_bin :: "integ_fn \<Rightarrow> ShapeStorage \<Rightarrow> real list \<Rightarrow> int \<Rightarrow> nat \<Rightarrow> TH1D \<Rightarrow> error + TH1D" where
  "set_bin Integ S y mass i histo =
     (if mass = 0 then Inl ZeroDivisionError
      else
        (let xcenter = GetBinCenter (axis histo) i / real_of_int mass in
         if binxcenters S = [] then Inl IndexError
         else if xcenter > hd (binxcenters S) \<and> xcenter < last (binxcenters S) then
           (let xlow = GetBinLowEdge (axis histo) i / real_of_int mass;
                xlow = (if xlow < hd (binxcenters S) then hd (binxcenters S) else xlow);
                xhigh = GetBinUpEdge (axis histo) i / real_of_int mass;
                xhigh = (if xhigh > last (binxcenters S) then last (binxcenters S) else xhigh);
                integral = Integ (binxcenters S) y xlow xhigh
            in Inr (SetBinContent histo i (if integral \<ge> 0 then integral else 0)))
         else Inr (SetBinContent histo i 0)))"

fun integrate_bins :: "integ_fn \<Rightarrow> ShapeStorage \<Rightarrow> real list \<Rightarrow> int \<Rightarrow> nat list \<Rightarrow> TH1D \<Rightarrow> error + TH1D" where
  "integrate_bins Integ S y mass [] histo = Inr histo"
| "integrate_bins Integ S y mass (i # is) histo =
     (case set_bin Integ S y mass i histo of
        Inl e \<Rightarrow> Inl e
      | Inr h \<Rightarrow> integrate_bins Integ S y mass is h)"

text \<open>Lines 114 to 116: nothing is printed on either branch.\<close>

definition normalize :: "TH1D \<Rightarrow> string list \<times> TH1D" where
  "normalize histo =
     (let integral = Integral histo in
      if integral > 0 then ([], Scale histo (1 / integral)) else ([], histo))"

definition LineShapePDF :: "integ_fn \<Rightarrow> ShapeStorage \<Rightarrow> int \<Rightarrow> TH1D \<Rightarrow> error + (string list \<times> TH1D)" where
  "LineShapePDF Integ S mass histo =
     (case interpolate S mass of
        Inl e \<Rightarrow> Inl e
      | Inr (out, y) \<Rightarrow>
          (case integrate_bins Integ S y mass [1..<GetNbinsX histo + 1] histo of
             Inl e \<Rightarrow> Inl e
           | Inr h \<Rightarrow> (case normalize h of (out', h') \<Rightarrow> Inr (out @ out', h'))))"

section \<open>main: the PDF and CDF histograms (lines 245 to 266)\<close>

text \<open>The body of the PDF loop for the coarse bin \<open>i\<close>.\<close>

definition pdf_bin_min :: "TH1D \<Rightarrow> TH1D \<Rightarrow> nat \<Rightarrow> nat" where
  "pdf_bin_min h_pdf h_shape i = FindBin (axis h_pdf) (GetBinLowEdge (axis h_shape) i + 0.5)"

definition pdf_bin_max :: "TH1D \<Rightarrow> TH1D \<Rightarrow> nat \<Rightarrow> nat" where
  "pdf_bin_max h_pdf h_shape i = FindBin (axis h_pdf) (GetBinUpEdge (axis h_shape) i - 0.5)"

definition pdf_width :: "nat \<Rightarrow> nat \<Rightarrow> int" where
  "pdf_width bin_min bin_max = max 1 (int bin_max - int bin_min + 1)"

definition spread_bin :: "TH1D \<Rightarrow> nat \<Rightarrow> TH1D \<Rightarrow> TH1D" where
  "spread_bin h_shape i h_pdf =
     (let bin_min = pdf_bin_min h_pdf h_shape i;
          bin_max = pdf_bin_max h_pdf h_shape i;
          width = pdf_width bin_min bin_max;
          val = GetBinContent h_shape i / real_of_int width
      in fold (\<lambda>b h. SetBinContent h b val) [bin_min..<bin_max + 1] h_pdf)"

definition fill_pdf :: "TH1D \<Rightarrow> TH1D \<Rightarrow> TH1D" where
  "fill_pdf h_shape h_pdf = fold (spread_bin h_shape) [1..<GetNbinsX h_shape + 1] h_pdf"

text \<open>The body of the CDF loop for the fine bin \<open>i\<close>.\<close>

definition accumulate_bin :: "TH1D \<Rightarrow> nat \<Rightarrow> TH1D \<Rightarrow> TH1D" where
  "accumulate_bin h_pdf i h_cdf =
     (let bin_min = pdf_bin_min h_pdf h_cdf i;
          bin_max = pdf_bin_max h_pdf h_cdf i;
          curr = fold (\<lambda>b c. c + GetBinContent h_pdf b) [bin_min..<bin_max + 1] 0;
          prev = GetBinContent h_cdf (i - 1)
      in SetBinContent h_cdf i (prev + curr))"

definition fill_cdf :: "TH1D \<Rightarrow> TH1D \<Rightarrow> TH1D" where
  "fill_cdf h_pdf h_cdf = fold (accumulate_bin h_pdf) [1..<GetNbinsX h_cdf + 1] h_cdf"

text \<open>
  Both histograms are created with \<open>n\<close> unit bins from 0 to \<open>n\<close>; \<^verbatim>\<open>main\<close> uses \<open>n = 14000\<close>.
\<close>

definition expand_density :: "nat \<Rightarrow> TH1D \<Rightarrow> TH1D \<times> TH1D" where
  "expand_density n h_shape =
     (let h_pdf = new_TH1D (FixBins n 0 (real n));
          h_cdf = new_TH1D (FixBins n 0 (real n));
          h_pdf = fill_pdf h_shape h_pdf;
          h_cdf = fill_cdf h_pdf h_cdf
      in (h_pdf, h_cdf))"

definition fine_nbins :: nat where
  "fine_nbins = 14000"

definition binBoundaries :: "real list" where
  "binBoundaries = [1, 3, 6, 10, 16, 23, 31, 40, 50, 61, 74, 88, 103, 119, 137, 156, 176, 197, 220, 244, 270, 296, 325,
        354, 386, 419, 453, 489, 526, 565, 606, 649, 693, 740, 788, 838, 890, 944, 1000, 1058, 1118, 1181, 1246, 1313, 1383, 1455, 1530, 1607, 1687,
        1770, 1856, 1945, 2037, 2132, 2231, 2332, 2438, 2546, 2659, 2775, 2895, 3019, 3147, 3279, 3416, 3558, 3704, 3854, 4010, 4171, 4337, 4509,
        4686, 4869, 5058, 5253, 5455, 5663, 5877, 6099, 6328, 6564, 6808, 7060, 7320, 7589, 7866, 8152, 8447, 8752, 9067, 9391, 9726, 10072, 10430,
        10798, 11179, 11571, 11977, 12395, 12827, 13272, 13732, 14000]"

text \<open>The two target binnings of \<^verbatim>\<open>main\<close>, and the PDF and CDF it stores.\<close>

definition main_h_shape :: "bool \<Rightarrow> TH1D" where
  "main_h_shape fineBinning =
     (if fineBinning then new_TH1D (FixBins fine_nbins 0 (real fine_nbins))
      else new_TH1D (VarBins binBoundaries))"

definition main_pdf_cdf :: "TH1D \<Rightarrow> TH1D \<times> TH1D" where
  "main_pdf_cdf h_shape = expand_density fine_nbins h_shape"

section \<open>Validity and the spec's formula\<close>

text \<open>
  A valid ShapeSet is a storage whose construction succeeded, over a dict (distinct keys).
\<close>

definition valid_ShapeStorage :: "ShapeStorage \<Rightarrow> bool" where
  "valid_ShapeStorage S \<longleftrightarrow>
     distinct (keys (shapes S)) \<and> ShapeStorage_init (shapes S) (binxcenters S) = Inr S"

text \<open>
  The linear blend in the spec's words:
  \<open>y[i] = yl[i] + (yh[i] - yl[i]) * (m - ml) / (mh - ml)\<close>.
\<close>

definition spec_blend :: "real list \<Rightarrow> real list \<Rightarrow> int \<Rightarrow> int \<Rightarrow> int \<Rightarrow> real list" where
  "spec_blend yl yh ml mh m =
     map2 (\<lambda>l h. l + (h - l) * real_of_int (m - ml) / real_of_int (mh - ml)) yl yh"

section \<open>Example inputs\<close>

text \<open>The spec's scenario: masses 1000 and 2000 over the grid \<open>[0.1, 0.5, 0.9]\<close>.\<close>

definition ex_grid :: "real list" where
  "ex_grid = [0.1, 0.5, 0.9]"

definition ex_shapes :: shape_dict where
  "ex_shapes = [(1000, [0.2, 0.3, 0.5]), (2000, [0.5, 0.3, 0.2])]"

definition ex_storage :: ShapeStorage where
  "ex_storage = \<lparr>shapes = ex_shapes, binxcenters = ex_grid\<rparr>"

text \<open>A single shape; a shape that sums to 1.05; a shape with two bins instead of three.\<close>

definition ex_one_shape :: shape_dict where
  "ex_one_shape = [(1000, [0.2, 0.3, 0.5])]"

definition ex_unnormalized :: shape_dict where
  "ex_unnormalized = [(1000, [0.2, 0.3, 0.5]), (2000, [0.55, 0.3, 0.2])]"

definition ex_short_shape :: shape_dict where
  "ex_short_shape = [(1000, [0.2, 0.3, 0.5]), (2000, [0.5, 0.5])]"

text \<open>Three shapes, the middle one at a mass between the other two.\<close>

definition ex_shapes3 :: shape_dict where
  "ex_shapes3 = [(1000, [0.2, 0.3, 0.5]), (1500, [1, 0, 0]), (2000, [0.5, 0.3, 0.2])]"

definition ex_storage3 :: ShapeStorage where
  "ex_storage3 = \<lparr>shapes = ex_shapes3, binxcenters = ex_grid\<rparr>"

section \<open>The bin content in the spec's words\<close>

text \<open>
  The content the spec gives to bin \<open>i\<close> before normalisation: 0 when the centre ratio is
  outside the open interval of the first and last grid coordinates, and otherwise the
  integral over the window clamped to the grid, floored at 0.
\<close>

definition spec_bin_content :: "integ_fn \<Rightarrow> ShapeStorage \<Rightarrow> real list \<Rightarrow> int \<Rightarrow> TAxis \<Rightarrow> nat \<Rightarrow> real" where
  "spec_bin_content Integ S y mass ax i =
     (let x0 = hd (binxcenters S); xN = last (binxcenters S);
          c = GetBinCenter ax i / real_of_int mass;
          x_lo = GetBinLowEdge ax i / real_of_int mass;
          x_hi = GetBinUpEdge ax i / real_of_int mass
      in if x0 < c \<and> c < xN then max 0 (Integ (binxcenters S) y (max x0 x_lo) (min xN x_hi))
         else 0)"

text \<open>Two curves for the examples: one with positive integrals, one with negative ones.\<close>

definition ex_integ :: integ_fn where
  "ex_integ x y a b = (b - a) * sum_list y"

definition ex_integ_neg :: integ_fn where
  "ex_integ_neg x y a b = (a - b) * sum_list y"

text \<open>
  Target binnings for the examples, in native units: four bins of width 400 from 0, and a
  single bin from 2000 to 3000 (outside the grid at mass 1000).
\<close>

definition ex_histo :: TH1D where
  "ex_histo = new_TH1D (VarBins [0, 400, 800, 1200, 1600])"

definition ex_far_histo :: TH1D where
  "ex_far_histo = new_TH1D (VarBins [2000, 3000])"

text \<open>The histogram after the loop over the bins: every bin \<open>1..n\<close> holds the content above.\<close>

definition integrated :: "integ_fn \<Rightarrow> ShapeStorage \<Rightarrow> real list \<Rightarrow> int \<Rightarrow> TH1D \<Rightarrow> TH1D" where
  "integrated Integ S y mass h =
     h\<lparr>contents := (\<lambda>b. if 1 \<le> b \<and> b \<le> GetNbinsX h then spec_bin_content Integ S y mass (axis h) b
                         else contents h b)\<rparr>"

text \<open>Histograms with totals 4, 0 and 1, for the normalisation.\<close>

definition ex_counts :: TH1D where
  "ex_counts = \<lparr>axis = VarBins [0, 1, 2], contents = (\<lambda>b. 0)(1 := 1, 2 := 3)\<rparr>"

definition ex_empty :: TH1D where
  "ex_empty = new_TH1D (VarBins [0, 1, 2])"

definition ex_unit :: TH1D where
  "ex_unit = \<lparr>axis = VarBins [0, 1, 2], contents = (\<lambda>b. 0)(1 := 1 / 4, 2 := 3 / 4)\<rparr>"

section \<open>Target binnings\<close>

text \<open>
  The spec's TargetBinning: bin edges strictly increasing, one more than the bins; for
  fixed-width bins, at least one bin over a non-empty range.
\<close>

definition valid_axis :: "TAxis \<Rightarrow> bool" where
  "valid_axis ax =
     (case ax of
        FixBins n lo hi \<Rightarrow> 0 < n \<and> lo < hi
      | VarBins es \<Rightarrow> 2 \<le> length es \<and> sorted_wrt (<) es)"

text \<open>A coarse histogram with bins \<open>[0, 2], [2, 3], [3, 6]\<close> and contents 1/2, 1/4, 1/4.\<close>

definition ex_coarse :: TH1D where
  "ex_coarse = \<lparr>axis = VarBins [0, 2, 3, 6], contents = (\<lambda>b. 0)(1 := 1 / 2, 2 := 1 / 4, 3 := 1 / 4)\<rparr>"

text \<open>A target binning with edges 0, 1, 2, used at mass 2 with a fine grid of 2 unit bins.\<close>

definition ex_small :: TH1D where
  "ex_small = new_TH1D (VarBins [0, 1, 2])"

text \<open>The same binning with contents 1/2 and 1/2.\<close>

definition ex_halves :: TH1D where
  "ex_halves = \<lparr>axis = VarBins [0, 1, 2], contents = (\<lambda>b. 0)(1 := 1 / 2, 2 := 1 / 2)\<rparr>"

section \<open>Construction of the storage\<close>

lemma dict_get_mem:
  "distinct (keys d) \<Longrightarrow> (k, v) \<in> set d \<Longrightarrow> dict_get d k = Inr v"
  by (simp add: dict_get_def keys_def)

lemma check_shapes_find:
  "distinct (keys d) \<Longrightarrow> set d' \<subseteq> set d \<Longrightarrow>
   check_shapes d (keys d') nb =
     (case find (\<lambda>kv. abs (sum_list (snd kv) - 1) > 0.01) d' of
        Some kv \<Rightarrow> Inl (UnnormalizedShapeError (fst kv))
      | None \<Rightarrow> Inr (nb @ map (\<lambda>kv. length (snd kv)) d'))"
proof (induction d' arbitrary: nb)
  case Nil
  then show ?case by (simp add: keys_def)
next
  case (Cons a d')
  obtain k v where a: "a = (k, v)" by (cases a)
  from Cons.prems a have g: "dict_get d k = Inr v"
    by (simp add: dict_get_mem)
  from Cons.prems have sub: "set d' \<subseteq> set d" by simp
  have ks: "keys (a # d') = k # keys d'" by (simp add: keys_def a)
  show ?case
    unfolding ks
    using Cons.IH [OF Cons.prems(1) sub] by (simp add: g a Let_def split: option.splits)
qed

lemma remdups_length_gt1:
  "length (remdups (a # xs)) > 1 \<longleftrightarrow> (\<exists>x\<in>set xs. x \<noteq> a)"
proof -
  have "length (remdups (a # xs)) = card (insert a (set xs))"
    by (metis length_remdups_card_conv list.simps(15))
  also have "\<dots> > 1 \<longleftrightarrow> (\<exists>x\<in>set xs. x \<noteq> a)"
  proof
    assume "1 < card (insert a (set xs))"
    then have "\<not> insert a (set xs) \<subseteq> {a}"
      by (metis card_mono card.empty card_insert_if finite.emptyI finite.insertI leD empty_iff One_nat_def)
    then show "\<exists>x\<in>set xs. x \<noteq> a" by auto
  next
    assume "\<exists>x\<in>set xs. x \<noteq> a"
    then obtain x where x: "x \<in> set xs" "x \<noteq> a" by blast
    then have "{a, x} \<subseteq> insert a (set xs)" by auto
    then have "card {a, x} \<le> card (insert a (set xs))"
      by (intro card_mono) auto
    with x show "1 < card (insert a (set xs))" by simp
  qed
  finally show ?thesis .
qed

lemma check_shapes_all:
  assumes "distinct (keys shp)"
  shows "check_shapes shp (keys shp) [length bxc] =
     (case find (\<lambda>kv. abs (sum_list (snd kv) - 1) > 0.01) shp of
        Some kv \<Rightarrow> Inl (UnnormalizedShapeError (fst kv))
      | None \<Rightarrow> Inr (length bxc # map (\<lambda>kv. length (snd kv)) shp))"
  using check_shapes_find [OF assms, of shp "[length bxc]"] by (simp split: option.splits)

text \<open>
  C2. Over a dict, the construction fails with the insufficient-shapes error when fewer
  than 2 masses are supplied; otherwise with the unnormalized-shape error, naming the
  first mass (in the dict's order) whose content sum deviates from 1.0 by more than 0.01,
  when there is such a shape; otherwise with the inconsistent-binning error when some
  shape's length differs from the grid's length; and it succeeds otherwise, returning
  the storage of the shapes and the grid.
\<close>

theorem ShapeStorage_init_outcome:
  assumes "distinct (keys shp)"
  shows "(length shp < 2 \<longrightarrow>
            ShapeStorage_init shp bxc = Inl (InsufficientShapesError (length shp)))
       \<and> (2 \<le> length shp \<and> (\<exists>kv\<in>set shp. abs (sum_list (snd kv) - 1) > 0.01) \<longrightarrow>
            (\<exists>k v. find (\<lambda>kv. abs (sum_list (snd kv) - 1) > 0.01) shp = Some (k, v)
                 \<and> ShapeStorage_init shp bxc = Inl (UnnormalizedShapeError k)))
       \<and> (2 \<le> length shp \<and> (\<forall>kv\<in>set shp. abs (sum_list (snd kv) - 1) \<le> 0.01)
            \<and> (\<exists>kv\<in>set shp. length (snd kv) \<noteq> length bxc) \<longrightarrow>
            ShapeStorage_init shp bxc = Inl InconsistentBinningError)
       \<and> (2 \<le> length shp \<and> (\<forall>kv\<in>set shp. abs (sum_list (snd kv) - 1) \<le> 0.01)
            \<and> (\<forall>kv\<in>set shp. length (snd kv) = length bxc) \<longrightarrow>
            ShapeStorage_init shp bxc = Inr \<lparr>shapes = shp, binxcenters = bxc\<rparr>)"
proof -
  let ?bad = "\<lambda>kv::int \<times> real list. abs (sum_list (snd kv) - 1) > 0.01"
  note cs = check_shapes_all [OF assms, of bxc]
  have none: "find ?bad shp = None" if "\<forall>kv\<in>set shp. abs (sum_list (snd kv) - 1) \<le> 0.01"
    using that by (auto simp: find_None_iff)
  have c1: "length shp < 2 \<longrightarrow>
            ShapeStorage_init shp bxc = Inl (InsufficientShapesError (length shp))"
    by (simp add: ShapeStorage_init_def)
  have c2: "2 \<le> length shp \<and> (\<exists>kv\<in>set shp. ?bad kv) \<longrightarrow>
            (\<exists>k v. find ?bad shp = Some (k, v)
                 \<and> ShapeStorage_init shp bxc = Inl (UnnormalizedShapeError k))"
  proof
    assume h: "2 \<le> length shp \<and> (\<exists>kv\<in>set shp. ?bad kv)"
    then have "find ?bad shp \<noteq> None" unfolding find_None_iff by blast
    then obtain k v where f: "find ?bad shp = Some (k, v)" by (cases "find ?bad shp") auto
    with h cs have "ShapeStorage_init shp bxc = Inl (UnnormalizedShapeError k)"
      by (simp add: ShapeStorage_init_def)
    with f show "\<exists>k v. find ?bad shp = Some (k, v)
                 \<and> ShapeStorage_init shp bxc = Inl (UnnormalizedShapeError k)" by blast
  qed
  have c3: "2 \<le> length shp \<and> (\<forall>kv\<in>set shp. abs (sum_list (snd kv) - 1) \<le> 0.01)
            \<and> (\<exists>kv\<in>set shp. length (snd kv) \<noteq> length bxc) \<longrightarrow>
            ShapeStorage_init shp bxc = Inl InconsistentBinningError"
  proof
    assume h: "2 \<le> length shp \<and> (\<forall>kv\<in>set shp. abs (sum_list (snd kv) - 1) \<le> 0.01)
            \<and> (\<exists>kv\<in>set shp. length (snd kv) \<noteq> length bxc)"
    then have n: "find ?bad shp = None" using none by blast
    from h have "length (remdups (length bxc # map (\<lambda>kv. length (snd kv)) shp)) > 1"
      unfolding remdups_length_gt1 by auto
    with h n cs show "ShapeStorage_init shp bxc = Inl InconsistentBinningError"
      by (simp add: ShapeStorage_init_def)
  qed
  have c4: "2 \<le> length shp \<and> (\<forall>kv\<in>set shp. abs (sum_list (snd kv) - 1) \<le> 0.01)
            \<and> (\<forall>kv\<in>set shp. length (snd kv) = length bxc) \<longrightarrow>
            ShapeStorage_init shp bxc = Inr \<lparr>shapes = shp, binxcenters = bxc\<rparr>"
  proof
    assume h: "2 \<le> length shp \<and> (\<forall>kv\<in>set shp. abs (sum_list (snd kv) - 1) \<le> 0.01)
            \<and> (\<forall>kv\<in>set shp. length (snd kv) = length bxc)"
    then have n: "find ?bad shp = None" using none by blast
    from h have "\<not> length (remdups (length bxc # map (\<lambda>kv. length (snd kv)) shp)) > 1"
      unfolding remdups_length_gt1 by auto
    with h n cs show "ShapeStorage_init shp bxc = Inr \<lparr>shapes = shp, binxcenters = bxc\<rparr>"
      by (simp add: ShapeStorage_init_def)
  qed
  from c1 c2 c3 c4 show ?thesis by blast
qed

theorem ShapeStorage_init_outcome_witness:
  "ShapeStorage_init ex_one_shape ex_grid = Inl (InsufficientShapesError 1)
   \<and> ShapeStorage_init ex_unnormalized ex_grid = Inl (UnnormalizedShapeError 2000)
   \<and> ShapeStorage_init ex_short_shape ex_grid = Inl InconsistentBinningError
   \<and> ShapeStorage_init ex_shapes ex_grid = Inr ex_storage"
proof -
  have a: "ShapeStorage_init ex_one_shape ex_grid = Inl (InsufficientShapesError 1)"
    using ShapeStorage_init_outcome [of ex_one_shape ex_grid]
    by (simp add: ex_one_shape_def keys_def)
  have b: "ShapeStorage_init ex_unnormalized ex_grid = Inl (UnnormalizedShapeError 2000)"
    using ShapeStorage_init_outcome [of ex_unnormalized ex_grid]
    by (simp add: ex_unnormalized_def keys_def)
  have c: "ShapeStorage_init ex_short_shape ex_grid = Inl InconsistentBinningError"
    using ShapeStorage_init_outcome [of ex_short_shape ex_grid]
    by (simp add: ex_short_shape_def ex_grid_def keys_def)
  have d: "ShapeStorage_init ex_shapes ex_grid = Inr ex_storage"
    using ShapeStorage_init_outcome [of ex_shapes ex_grid]
    by (simp add: ex_shapes_def ex_grid_def ex_storage_def keys_def)
  from a b c d show ?thesis by blast
qed

section \<open>Facts about a valid storage\<close>

lemma ShapeStorage_init_Inr:
  assumes "distinct (keys shp)" and "ShapeStorage_init shp bxc = Inr S"
  shows "2 \<le> length shp \<and> (\<forall>kv\<in>set shp. abs (sum_list (snd kv) - 1) \<le> 0.01)
       \<and> (\<forall>kv\<in>set shp. length (snd kv) = length bxc)"
proof -
  let ?bad = "\<lambda>kv::int \<times> real list. abs (sum_list (snd kv) - 1) > 0.01"
  note cs = check_shapes_all [OF assms(1), of bxc]
  from assms(2) have len: "2 \<le> length shp"
    by (simp add: ShapeStorage_init_def split: if_splits)
  from assms(2) len cs have n: "find ?bad shp = None"
    by (cases "find ?bad shp") (simp_all add: ShapeStorage_init_def)
  then have norm: "\<forall>kv\<in>set shp. abs (sum_list (snd kv) - 1) \<le> 0.01"
    unfolding find_None_iff by (meson not_less)
  from assms(2) len cs n
  have "\<not> length (remdups (length bxc # map (\<lambda>kv. length (snd kv)) shp)) > 1"
    by (simp add: ShapeStorage_init_def split: if_splits)
  then have "\<forall>kv\<in>set shp. length (snd kv) = length bxc"
    unfolding remdups_length_gt1 by auto
  with len norm show ?thesis by blast
qed

lemma valid_facts:
  assumes "valid_ShapeStorage S"
  shows "distinct (keys (shapes S))" and "2 \<le> length (shapes S)"
    and "\<And>k v. (k, v) \<in> set (shapes S) \<Longrightarrow> abs (sum_list v - 1) \<le> 0.01"
    and "\<And>k v. (k, v) \<in> set (shapes S) \<Longrightarrow> length v = length (binxcenters S)"
  using assms ShapeStorage_init_Inr [of "shapes S" "binxcenters S" S]
  by (auto simp: valid_ShapeStorage_def)

lemma valid_grid_nonempty:
  assumes "valid_ShapeStorage S"
  shows "binxcenters S \<noteq> []"
proof
  assume e: "binxcenters S = []"
  from valid_facts(2) [OF assms] obtain k v where kv: "(k, v) \<in> set (shapes S)"
    by (cases "shapes S") auto
  from valid_facts(4) [OF assms kv] e have "v = []" by simp
  with valid_facts(3) [OF assms kv] show False by simp
qed

lemma sorted_hd_le: "sorted xs \<Longrightarrow> x \<in> set xs \<Longrightarrow> hd xs \<le> (x::int)"
  by (cases xs) auto

lemma sorted_le_last: "sorted xs \<Longrightarrow> x \<in> set xs \<Longrightarrow> (x::int) \<le> last xs"
  by (induction xs) auto

lemma py_max_eq: "x \<in> set xs \<Longrightarrow> \<forall>y\<in>set xs. y \<le> x \<Longrightarrow> py_max xs = Inr x"
proof (cases xs)
  case Nil
  assume "x \<in> set xs" with Nil show ?thesis by simp
next
  case (Cons a r)
  assume h: "x \<in> set xs" "\<forall>y\<in>set xs. y \<le> x"
  have "fold max r a = Max (set (a # r))" by (simp only: Max.set_eq_fold)
  also have "\<dots> = x" using h Cons by (intro Max_eqI) auto
  finally show ?thesis by (simp add: py_max_def Cons)
qed

lemma py_min_eq: "x \<in> set xs \<Longrightarrow> \<forall>y\<in>set xs. x \<le> y \<Longrightarrow> py_min xs = Inr x"
proof (cases xs)
  case Nil
  assume "x \<in> set xs" with Nil show ?thesis by simp
next
  case (Cons a r)
  assume h: "x \<in> set xs" "\<forall>y\<in>set xs. x \<le> y"
  have "fold min r a = Min (set (a # r))" by (simp only: Min.set_eq_fold)
  also have "\<dots> = x" using h Cons by (intro Min_eqI) auto
  finally show ?thesis by (simp add: py_min_def Cons)
qed

lemma bracket_between:
  assumes "sorted xs" and "ml \<in> set xs" and "mh \<in> set xs" and "ml < mass" and "mass < mh"
    and "\<forall>k\<in>set xs. k < mass \<longrightarrow> k \<le> ml" and "\<forall>k\<in>set xs. mass < k \<longrightarrow> mh \<le> k"
  shows "bracket xs mass = Inr ([], ml, mh)"
proof -
  from assms(2) have ne: "xs \<noteq> []" by auto
  from sorted_hd_le [OF assms(1,2)] assms(4) have lo: "\<not> mass < hd xs" by simp
  from sorted_le_last [OF assms(1,3)] assms(5) have hi: "\<not> mass > last xs" by simp
  have mx: "py_max (filter (\<lambda>m. m < mass) xs) = Inr ml"
    using assms(2,4,6) by (intro py_max_eq) auto
  have mn: "py_min (filter (\<lambda>m. m > mass) xs) = Inr mh"
    using assms(3,5,7) by (intro py_min_eq) auto
  show ?thesis by (simp add: bracket_def ne lo hi mx mn Let_def)
qed

lemma bracket_below:
  assumes "sorted xs" and "distinct xs" and "2 \<le> length xs"
    and "ml \<in> set xs" and "mh \<in> set xs" and "ml < mh"
    and "\<forall>k\<in>set xs. k \<noteq> ml \<longrightarrow> mh \<le> k" and "\<forall>k\<in>set xs. mass < k"
  shows "bracket xs mass = Inr ([warn_below], ml, mh)"
proof -
  from assms(3) obtain a b r where xs: "xs = a # b # r"
    by (cases xs; cases "tl xs") auto
  have a: "a = ml"
  proof (rule ccontr)
    assume "a \<noteq> ml"
    with assms(7) xs have "mh \<le> a" by simp
    moreover from assms(1,4) xs have "a \<le> ml" by auto
    ultimately show False using assms(6) by simp
  qed
  from assms(2) xs a have "b \<noteq> ml" by auto
  with assms(7) xs have "mh \<le> b" by simp
  moreover from assms(5,6) xs a have "mh \<in> set (b # r)" by auto
  with assms(1) xs have "b \<le> mh" by auto
  ultimately have b: "b = mh" by simp
  from assms(8) xs have "mass < a" by simp
  then show ?thesis by (simp add: bracket_def xs a b Let_def)
qed

lemma bracket_above:
  assumes "sorted xs" and "distinct xs" and "2 \<le> length xs"
    and "ml \<in> set xs" and "mh \<in> set xs" and "ml < mh"
    and "\<forall>k\<in>set xs. k \<noteq> mh \<longrightarrow> k \<le> ml" and "\<forall>k\<in>set xs. k < mass"
  shows "bracket xs mass = Inr ([warn_above], ml, mh)"
proof -
  let ?n = "length xs"
  from assms(3) have ne: "xs \<noteq> []" by auto
  have lastn: "last xs = xs ! (?n - 1)" using ne by (simp add: last_conv_nth)
  have last_in: "last xs \<in> set xs" using ne by simp
  have hd_in: "hd xs \<in> set xs" using ne by simp
  have d: "xs ! (?n - 1) = mh"
  proof (rule ccontr)
    assume "xs ! (?n - 1) \<noteq> mh"
    with assms(7) last_in lastn have "last xs \<le> ml" by simp
    moreover from sorted_le_last [OF assms(1,5)] have "mh \<le> last xs" .
    ultimately show False using assms(6) by simp
  qed
  let ?c = "xs ! (?n - 2)"
  have c_in: "?c \<in> set xs" using assms(3) by simp
  have "?c \<noteq> xs ! (?n - 1)"
    using assms(2,3) by (simp add: nth_eq_iff_index_eq)
  with d assms(7) c_in have c_le: "?c \<le> ml" by simp
  from assms(4) obtain j where j: "j < ?n" "xs ! j = ml" by (auto simp: in_set_conv_nth)
  with d assms(6) have "j \<noteq> ?n - 1" by auto
  with j have "j \<le> ?n - 2" by simp
  with assms(1,3) have "xs ! j \<le> ?c" by (intro sorted_nth_mono) auto
  with j c_le have c: "?c = ml" by simp
  from assms(8) hd_in have lo: "\<not> mass < hd xs" by (simp add: not_less less_imp_le)
  from assms(8) last_in have hi: "mass > last xs" by simp
  from assms(3) have l2: "\<not> ?n < 2" by simp
  show ?thesis using c d by (simp add: bracket_def ne lo hi l2 Let_def)
qed

lemma blend_eq:
  assumes "length yl = length yh" and "ml \<noteq> mh"
  shows "blend yl yh ml mh mass = Inr (spec_blend yl yh ml mh mass)"
proof -
  have "map2 (+) (map (\<lambda>u. (u / real_of_int (mh - ml)) * real_of_int (mass - ml)) (map2 (-) yh yl)) yl
        = spec_blend yl yh ml mh mass"
    using assms(1) unfolding spec_blend_def
    by (induction yl yh rule: list_induct2) (simp_all add: algebra_simps)
  with assms show ?thesis by (simp add: blend_def np_binop_def)
qed

lemma interpolate_pair:
  assumes "valid_ShapeStorage S" and "mass \<notin> set (keys (shapes S))"
    and "(ml, yl) \<in> set (shapes S)" and "(mh, yh) \<in> set (shapes S)" and "ml \<noteq> mh"
    and "bracket (sort (keys (shapes S))) mass = Inr (out, ml, mh)"
  shows "interpolate S mass = Inr (out, spec_blend yl yh ml mh mass)"
proof -
  note v = valid_facts [OF assms(1)]
  have gl: "dict_get (shapes S) ml = Inr yl" by (rule dict_get_mem [OF v(1) assms(3)])
  have gh: "dict_get (shapes S) mh = Inr yh" by (rule dict_get_mem [OF v(1) assms(4)])
  have "length yl = length yh" using v(4) [OF assms(3)] v(4) [OF assms(4)] by simp
  then have "blend yl yh ml mh mass = Inr (spec_blend yl yh ml mh mass)"
    using assms(5) by (rule blend_eq)
  with assms(2,6) gl gh show ?thesis by (simp add: interpolate_def)
qed

lemma key_mem: "(k, v) \<in> set d \<Longrightarrow> k \<in> set (keys d)"
  by (force simp: keys_def)

section \<open>The interpolated curve\<close>

lemma valid_ex_storage: "valid_ShapeStorage ex_storage"
  by (simp add: valid_ShapeStorage_def ex_storage_def ex_shapes_def ex_grid_def keys_def
      ShapeStorage_init_def dict_get_def)

lemma valid_ex_storage3: "valid_ShapeStorage ex_storage3"
  by (simp add: valid_ShapeStorage_def ex_storage3_def ex_shapes3_def ex_grid_def keys_def
      ShapeStorage_init_def dict_get_def)

text \<open>
  C7. When the target mass is a known mass of the storage, the curve is that shape's
  content sequence itself, and nothing is printed.
\<close>

theorem interpolate_known_mass:
  assumes "distinct (keys (shapes S))" and "(mass, y) \<in> set (shapes S)"
  shows "interpolate S mass = Inr ([], y)"
  using assms by (simp add: interpolate_def dict_get_mem key_mem)

theorem interpolate_known_mass_witness:
  "interpolate ex_storage 1000 = Inr ([], [0.2, 0.3, 0.5])"
  using interpolate_known_mass [of ex_storage 1000 "[0.2, 0.3, 0.5]"]
  by (simp add: ex_storage_def ex_shapes_def keys_def)

text \<open>
  C1, as stated, fails when the target mass is itself a known mass lying strictly between
  two others: with shapes at 1000, 1500 and 2000, the masses bracketing 1500 are 1000 and
  2000, and the curve at 1500 is the stored shape \<open>[1, 0, 0]\<close>, not the blend
  \<open>[0.35, 0.3, 0.35]\<close> of the shapes at 1000 and 2000.
\<close>

theorem interpolate_between_counterexample:
  "valid_ShapeStorage ex_storage3
   \<and> filter (\<lambda>k. k < 1500) (keys (shapes ex_storage3)) = [1000]
   \<and> filter (\<lambda>k. 1500 < k) (keys (shapes ex_storage3)) = [2000]
   \<and> interpolate ex_storage3 1500 = Inr ([], [1, 0, 0])
   \<and> spec_blend [0.2, 0.3, 0.5] [0.5, 0.3, 0.2] 1000 2000 1500 = [0.35, 0.3, 0.35]
   \<and> interpolate ex_storage3 1500
       \<noteq> Inr ([], spec_blend [0.2, 0.3, 0.5] [0.5, 0.3, 0.2] 1000 2000 1500)"
proof -
  have "interpolate ex_storage3 1500 = Inr ([], [1, 0, 0])"
    by (simp add: interpolate_def ex_storage3_def ex_shapes3_def keys_def dict_get_def)
  moreover have "spec_blend [0.2, 0.3, 0.5] [0.5, 0.3, 0.2] 1000 2000 1500 = [0.35, 0.3, 0.35]"
    by (simp add: spec_blend_def)
  moreover have "filter (\<lambda>k. k < 1500) (keys (shapes ex_storage3)) = [1000]"
    "filter (\<lambda>k. 1500 < k) (keys (shapes ex_storage3)) = [2000]"
    by (simp_all add: ex_storage3_def ex_shapes3_def keys_def)
  ultimately show ?thesis using valid_ex_storage3 by simp
qed

text \<open>
  C1, amended. For a valid storage and a target mass that is not a known mass and lies
  strictly between two known masses, with \<open>ml\<close> the largest known mass strictly less than
  the target and \<open>mh\<close> the smallest known mass strictly greater, the curve is the per-bin
  linear blend \<open>yl[i] + (yh[i] - yl[i]) * (m - ml) / (mh - ml)\<close> of their shapes, and
  nothing is printed. For the shapes \<open>[0.2, 0.3, 0.5]\<close> at 1000 and \<open>[0.5, 0.3, 0.2]\<close> at
  2000, the curve at 1500 is \<open>[0.35, 0.3, 0.35]\<close>.
\<close>

theorem interpolate_between:
  assumes "valid_ShapeStorage S" and "mass \<notin> set (keys (shapes S))"
    and "(ml, yl) \<in> set (shapes S)" and "(mh, yh) \<in> set (shapes S)"
    and "ml < mass" and "mass < mh"
    and "\<forall>k\<in>set (keys (shapes S)). k < mass \<longrightarrow> k \<le> ml"
    and "\<forall>k\<in>set (keys (shapes S)). mass < k \<longrightarrow> mh \<le> k"
  shows "interpolate S mass = Inr ([], spec_blend yl yh ml mh mass)"
proof -
  have "bracket (sort (keys (shapes S))) mass = Inr ([], ml, mh)"
    using assms(3-8) by (intro bracket_between) (simp_all add: key_mem)
  moreover from assms(5,6) have "ml \<noteq> mh" by simp
  ultimately show ?thesis using assms(1-4) by (intro interpolate_pair)
qed

theorem interpolate_between_witness:
  "interpolate ex_storage 1500 = Inr ([], [0.35, 0.3, 0.35])"
proof -
  have "interpolate ex_storage 1500
        = Inr ([], spec_blend [0.2, 0.3, 0.5] [0.5, 0.3, 0.2] 1000 2000 1500)"
    using interpolate_between [OF valid_ex_storage, of 1500 1000 "[0.2, 0.3, 0.5]" 2000 "[0.5, 0.3, 0.2]"]
    by (simp add: ex_storage_def ex_shapes_def keys_def)
  then show ?thesis by (simp add: spec_blend_def)
qed

text \<open>
  C6. For a valid storage whose two lowest known masses are \<open>ml < mh\<close>, a target mass
  below every known mass gives the same linear formula on that pair; symmetrically, when
  \<open>ml < mh\<close> are the two highest known masses, for a target above every known mass. In
  both cases the call returns normally and exactly one warning line is printed.
\<close>

theorem interpolate_extrapolates:
  assumes "valid_ShapeStorage S"
    and "(ml, yl) \<in> set (shapes S)" and "(mh, yh) \<in> set (shapes S)" and "ml < mh"
  shows "((\<forall>k\<in>set (keys (shapes S)). mass < k) \<and> (\<forall>k\<in>set (keys (shapes S)). k \<noteq> ml \<longrightarrow> mh \<le> k)
            \<longrightarrow> interpolate S mass = Inr ([warn_below], spec_blend yl yh ml mh mass))
       \<and> ((\<forall>k\<in>set (keys (shapes S)). k < mass) \<and> (\<forall>k\<in>set (keys (shapes S)). k \<noteq> mh \<longrightarrow> k \<le> ml)
            \<longrightarrow> interpolate S mass = Inr ([warn_above], spec_blend yl yh ml mh mass))"
proof -
  note v = valid_facts [OF assms(1)]
  let ?xs = "sort (keys (shapes S))"
  have s: "sorted ?xs" "distinct ?xs" "2 \<le> length ?xs" "ml \<in> set ?xs" "mh \<in> set ?xs"
    using v(1,2) assms(2,3) by (simp_all add: key_mem) (simp add: keys_def)
  from assms(4) have ne: "ml \<noteq> mh" by simp
  have lo: "interpolate S mass = Inr ([warn_below], spec_blend yl yh ml mh mass)"
    if h: "\<forall>k\<in>set (keys (shapes S)). mass < k" "\<forall>k\<in>set (keys (shapes S)). k \<noteq> ml \<longrightarrow> mh \<le> k"
  proof -
    from h(1) have "mass \<notin> set (keys (shapes S))" by auto
    moreover have "bracket ?xs mass = Inr ([warn_below], ml, mh)"
      using s assms(4) h by (intro bracket_below) simp_all
    ultimately show ?thesis using assms(1-3) ne by (intro interpolate_pair)
  qed
  have hi: "interpolate S mass = Inr ([warn_above], spec_blend yl yh ml mh mass)"
    if h: "\<forall>k\<in>set (keys (shapes S)). k < mass" "\<forall>k\<in>set (keys (shapes S)). k \<noteq> mh \<longrightarrow> k \<le> ml"
  proof -
    from h(1) have "mass \<notin> set (keys (shapes S))" by auto
    moreover have "bracket ?xs mass = Inr ([warn_above], ml, mh)"
      using s assms(4) h by (intro bracket_above) simp_all
    ultimately show ?thesis using assms(1-3) ne by (intro interpolate_pair)
  qed
  from lo hi show ?thesis by blast
qed

theorem interpolate_extrapolates_witness:
  "interpolate ex_storage 500 = Inr ([warn_below], [0.05, 0.3, 0.65])
   \<and> interpolate ex_storage 2500 = Inr ([warn_above], [0.65, 0.3, 0.05])"
proof -
  have a: "interpolate ex_storage 500
        = Inr ([warn_below], spec_blend [0.2, 0.3, 0.5] [0.5, 0.3, 0.2] 1000 2000 500)"
    using interpolate_extrapolates [OF valid_ex_storage, of 1000 "[0.2, 0.3, 0.5]" 2000 "[0.5, 0.3, 0.2]" 500]
    by (simp add: ex_storage_def ex_shapes_def keys_def)
  have b: "interpolate ex_storage 2500
        = Inr ([warn_above], spec_blend [0.2, 0.3, 0.5] [0.5, 0.3, 0.2] 1000 2000 2500)"
    using interpolate_extrapolates [OF valid_ex_storage, of 1000 "[0.2, 0.3, 0.5]" 2000 "[0.5, 0.3, 0.2]" 2500]
    by (simp add: ex_storage_def ex_shapes_def keys_def)
  from a b show ?thesis by (simp add: spec_blend_def)
qed

section \<open>Integration over the bins and normalisation\<close>

lemma GetBinCenter_mid:
  "GetBinCenter ax i = (GetBinLowEdge ax i + GetBinUpEdge ax i) / 2"
  by (simp add: GetBinCenter_def GetBinLowEdge_def GetBinUpEdge_def algebra_simps)

lemma set_bin_eq:
  assumes "mass \<noteq> 0" and "binxcenters S \<noteq> []"
  shows "set_bin Integ S y mass i h
         = Inr (SetBinContent h i (spec_bin_content Integ S y mass (axis h) i))"
  using assms by (simp add: set_bin_def spec_bin_content_def Let_def max_def min_def)

lemma SetBinContent_axis: "axis (SetBinContent h i c) = axis h"
  by (simp add: SetBinContent_def)

lemma SetBinContent_nbins: "GetNbinsX (SetBinContent h i c) = GetNbinsX h"
  by (simp add: GetNbinsX_def SetBinContent_axis)

lemma SetBinContent_contents:
  "i \<le> GetNbinsX h + 1 \<Longrightarrow> contents (SetBinContent h i c) = (contents h)(i := c)"
  by (simp add: SetBinContent_def)

lemma integrate_bins_eq:
  assumes "mass \<noteq> 0" and "binxcenters S \<noteq> []"
    and "\<forall>i\<in>set js. i \<le> GetNbinsX h + 1"
  shows "integrate_bins Integ S y mass js h
         = Inr (h\<lparr>contents := (\<lambda>b. if b \<in> set js then spec_bin_content Integ S y mass (axis h) b
                                  else contents h b)\<rparr>)"
  using assms(3)
proof (induction js arbitrary: h)
  case Nil
  then show ?case by simp
next
  case (Cons j js)
  let ?h1 = "SetBinContent h j (spec_bin_content Integ S y mass (axis h) j)"
  from Cons.prems have j: "j \<le> GetNbinsX h + 1" by simp
  from Cons.prems have "\<forall>i\<in>set js. i \<le> GetNbinsX ?h1 + 1"
    by (simp add: SetBinContent_nbins)
  from Cons.IH [OF this]
  have "integrate_bins Integ S y mass js ?h1
        = Inr (?h1\<lparr>contents := (\<lambda>b. if b \<in> set js then spec_bin_content Integ S y mass (axis h) b
                                  else contents ?h1 b)\<rparr>)"
    unfolding SetBinContent_axis .
  also have "\<dots> = Inr (h\<lparr>contents := (\<lambda>b. if b \<in> set (j # js) then spec_bin_content Integ S y mass (axis h) b
                                  else contents h b)\<rparr>)"
    using j by (auto simp: SetBinContent_def fun_eq_iff)
  finally show ?case
    by (simp add: set_bin_eq [OF assms(1,2)])
qed

lemma spec_bin_content_nonneg: "0 \<le> spec_bin_content Integ S y mass ax i"
  by (simp add: spec_bin_content_def Let_def)

lemma py_max_mem: "xs \<noteq> [] \<Longrightarrow> \<exists>m. py_max xs = Inr m \<and> m \<in> set xs"
proof (cases xs)
  case Nil
  assume "xs \<noteq> []" with Nil show ?thesis by simp
next
  case (Cons a r)
  have "fold max r a = Max (set (a # r))" by (simp only: Max.set_eq_fold)
  moreover have "Max (set (a # r)) \<in> set (a # r)" by (intro Max_in) auto
  ultimately show ?thesis by (simp add: py_max_def Cons)
qed

lemma py_min_mem: "xs \<noteq> [] \<Longrightarrow> \<exists>m. py_min xs = Inr m \<and> m \<in> set xs"
proof (cases xs)
  case Nil
  assume "xs \<noteq> []" with Nil show ?thesis by simp
next
  case (Cons a r)
  have "fold min r a = Min (set (a # r))" by (simp only: Min.set_eq_fold)
  moreover have "Min (set (a # r)) \<in> set (a # r)" by (intro Min_in) auto
  ultimately show ?thesis by (simp add: py_min_def Cons)
qed

lemma bracket_total:
  assumes "distinct xs" and "2 \<le> length xs" and "mass \<notin> set xs"
  shows "\<exists>out ml mh. bracket xs mass = Inr (out, ml, mh) \<and> ml \<in> set xs \<and> mh \<in> set xs \<and> ml \<noteq> mh"
proof -
  let ?n = "length xs"
  from assms(2) have ne: "xs \<noteq> []" by auto
  have hd_in: "hd xs \<in> set xs" and last_in: "last xs \<in> set xs" using ne by simp_all
  from assms(2) have l2: "\<not> ?n < 2" by simp
  consider (lo) "mass < hd xs" | (hi) "\<not> mass < hd xs" "last xs < mass"
    | (mid) "\<not> mass < hd xs" "\<not> last xs < mass" by blast
  then show ?thesis
  proof cases
    case lo
    have "xs ! 0 \<noteq> xs ! 1"
    proof -
      have "0 < length xs" "1 < length xs" using assms(2) by auto
      with assms(1) show ?thesis by (simp add: nth_eq_iff_index_eq del: One_nat_def)
    qed
    moreover have "xs ! 0 \<in> set xs" "xs ! 1 \<in> set xs"
      using assms(2) by (auto intro!: nth_mem)
    ultimately show ?thesis using lo by (simp add: bracket_def ne l2 Let_def)
  next
    case hi
    have "xs ! (?n - 2) \<noteq> xs ! (?n - 1)" using assms(1,2) by (simp add: nth_eq_iff_index_eq)
    moreover have "xs ! (?n - 2) \<in> set xs" "xs ! (?n - 1) \<in> set xs"
      using assms(2) by (auto intro!: nth_mem)
    ultimately show ?thesis using hi by (simp add: bracket_def ne l2 Let_def)
  next
    case mid
    from mid(1) hd_in assms(3) have "hd xs < mass" by (cases "hd xs = mass") auto
    with hd_in have "filter (\<lambda>m. m < mass) xs \<noteq> []" by (auto simp: filter_empty_conv)
    from py_max_mem [OF this] obtain ml
      where ml: "py_max (filter (\<lambda>m. m < mass) xs) = Inr ml" "ml \<in> set xs" "ml < mass" by auto
    from mid(2) last_in assms(3) have "mass < last xs" by (cases "last xs = mass") auto
    with last_in have "filter (\<lambda>m. m > mass) xs \<noteq> []" by (auto simp: filter_empty_conv)
    from py_min_mem [OF this] obtain mh
      where mh: "py_min (filter (\<lambda>m. m > mass) xs) = Inr mh" "mh \<in> set xs" "mass < mh" by auto
    from ml mh have "ml \<noteq> mh" by simp
    with ml mh mid show ?thesis by (simp add: bracket_def ne Let_def)
  qed
qed

lemma interpolate_total:
  assumes "valid_ShapeStorage S"
  shows "\<exists>out y. interpolate S mass = Inr (out, y)"
proof (cases "mass \<in> set (keys (shapes S))")
  case True
  then obtain y where "(mass, y) \<in> set (shapes S)" by (auto simp: keys_def)
  with valid_facts(1) [OF assms] have "dict_get (shapes S) mass = Inr y"
    by (simp add: dict_get_mem)
  with True show ?thesis by (simp add: interpolate_def)
next
  case False
  note v = valid_facts [OF assms]
  let ?xs = "sort (keys (shapes S))"
  have "distinct ?xs" "2 \<le> length ?xs" "mass \<notin> set ?xs"
    using v(1,2) False by (simp_all add: keys_def)
  from bracket_total [OF this] obtain out ml mh
    where b: "bracket ?xs mass = Inr (out, ml, mh)" "ml \<in> set (keys (shapes S))"
      "mh \<in> set (keys (shapes S))" "ml \<noteq> mh" by auto
  from b(2) obtain yl where yl: "(ml, yl) \<in> set (shapes S)" by (auto simp: keys_def)
  from b(3) obtain yh where yh: "(mh, yh) \<in> set (shapes S)" by (auto simp: keys_def)
  from interpolate_pair [OF assms False yl yh b(4) b(1)] show ?thesis by blast
qed

lemma integrate_bins_all:
  assumes "mass \<noteq> 0" and "binxcenters S \<noteq> []"
  shows "integrate_bins Integ S y mass [1..<GetNbinsX h + 1] h = Inr (integrated Integ S y mass h)"
proof -
  have "\<forall>i\<in>set [1..<GetNbinsX h + 1]. i \<le> GetNbinsX h + 1" by auto
  moreover have "\<And>b. b \<in> set [1..<GetNbinsX h + 1] \<longleftrightarrow> 1 \<le> b \<and> b \<le> GetNbinsX h"
    by auto
  ultimately show ?thesis
    unfolding integrated_def using integrate_bins_eq [OF assms, of "[1..<GetNbinsX h + 1]" h Integ y]
    by (simp only:)
qed

lemma LineShapePDF_eq:
  assumes "valid_ShapeStorage S" and "mass \<noteq> 0" and "interpolate S mass = Inr (out, y)"
  shows "LineShapePDF Integ S mass h = Inr (out, snd (normalize (integrated Integ S y mass h)))"
  using assms(3) integrate_bins_all [OF assms(2) valid_grid_nonempty [OF assms(1)], of Integ y h]
  by (simp add: LineShapePDF_def normalize_def Let_def)

lemma Integral_Scale: "Integral (Scale h c) = c * Integral h"
  by (simp add: Integral_def Scale_def GetNbinsX_def sum_list_const_mult)

lemma integrated_nbins: "GetNbinsX (integrated Integ S y mass h) = GetNbinsX h"
  by (simp add: integrated_def GetNbinsX_def)

lemma integrated_bin:
  "1 \<le> i \<Longrightarrow> i \<le> GetNbinsX h \<Longrightarrow>
   contents (integrated Integ S y mass h) i = spec_bin_content Integ S y mass (axis h) i"
  by (simp add: integrated_def)

lemma normalize_nbins: "GetNbinsX (snd (normalize h)) = GetNbinsX h"
  by (simp add: normalize_def Scale_def GetNbinsX_def Let_def)

lemma normalize_contents:
  "contents (snd (normalize h)) b
   = (if Integral h > 0 then contents h b / Integral h else contents h b)"
  by (simp add: normalize_def Scale_def Let_def)

lemma normalize_Integral:
  "Integral h > 0 \<Longrightarrow> Integral (snd (normalize h)) = 1"
  by (simp add: normalize_def Let_def Integral_Scale)


lemma normalize_nonneg:
  assumes "\<And>b. 1 \<le> b \<Longrightarrow> b \<le> GetNbinsX h \<Longrightarrow> 0 \<le> contents h b"
    and "1 \<le> i" and "i \<le> GetNbinsX h"
  shows "0 \<le> contents (snd (normalize h)) i"
  using assms(1) [OF assms(2,3)] by (simp add: normalize_contents)

lemma midpoint_outside:
  fixes a b x0 xN :: real
  assumes "(a < x0 \<and> b < x0) \<or> (xN < a \<and> xN < b)"
  shows "\<not> (x0 < (a + b) / 2 \<and> (a + b) / 2 < xN)"
  using assms by argo

text \<open>
  C3. For a valid storage, a non-zero target mass and a bin \<open>i\<close> of the target histogram,
  the call returns, and: when the bin's centre ratio is not inside the open interval
  between the first and the last grid coordinate, the bin content is 0 whatever the
  integrator is, before and after the normalisation; otherwise the content written by
  the loop is the integral over the ratio window with its lower edge raised to the first
  coordinate and its upper edge lowered to the last one, floored at 0. In particular a
  bin whose ratio window lies entirely below the first or entirely above the last grid
  coordinate has content 0.
\<close>

theorem bin_domain_clamp:
  assumes "valid_ShapeStorage S" and "mass \<noteq> 0" and "1 \<le> i" and "i \<le> GetNbinsX histo"
  shows "\<exists>out y h h'.
           interpolate S mass = Inr (out, y)
         \<and> integrate_bins Integ S y mass [1..<GetNbinsX histo + 1] histo = Inr h
         \<and> LineShapePDF Integ S mass histo = Inr (out, h')
         \<and> (let x0 = hd (binxcenters S); xN = last (binxcenters S);
                 c = GetBinCenter (axis histo) i / real_of_int mass;
                 x_lo = GetBinLowEdge (axis histo) i / real_of_int mass;
                 x_hi = GetBinUpEdge (axis histo) i / real_of_int mass
             in (\<not> (x0 < c \<and> c < xN) \<longrightarrow> contents h i = 0 \<and> contents h' i = 0)
              \<and> (x0 < c \<and> c < xN \<longrightarrow>
                   contents h i = max 0 (Integ (binxcenters S) y (max x0 x_lo) (min xN x_hi)))
              \<and> ((x_lo < x0 \<and> x_hi < x0) \<or> (xN < x_lo \<and> xN < x_hi) \<longrightarrow>
                   contents h i = 0 \<and> contents h' i = 0))"
proof -
  from interpolate_total [OF assms(1)] obtain out y
    where iy: "interpolate S mass = Inr (out, y)" by blast
  let ?h = "integrated Integ S y mass histo"
  let ?h' = "snd (normalize ?h)"
  let ?x0 = "hd (binxcenters S)" and ?xN = "last (binxcenters S)"
  let ?c = "GetBinCenter (axis histo) i / real_of_int mass"
  let ?lo = "GetBinLowEdge (axis histo) i / real_of_int mass"
  let ?hi = "GetBinUpEdge (axis histo) i / real_of_int mass"
  have ib: "integrate_bins Integ S y mass [1..<GetNbinsX histo + 1] histo = Inr ?h"
    by (rule integrate_bins_all [OF assms(2) valid_grid_nonempty [OF assms(1)]])
  have lp: "LineShapePDF Integ S mass histo = Inr (out, ?h')"
    by (rule LineShapePDF_eq [OF assms(1,2) iy])
  have hi: "contents ?h i = spec_bin_content Integ S y mass (axis histo) i"
    by (rule integrated_bin [OF assms(3,4)])
  have z: "contents ?h' i = 0" if "contents ?h i = 0"
    using that by (simp add: normalize_contents)
  have mid: "?c = (?lo + ?hi) / 2"
    by (simp add: GetBinCenter_mid add_divide_distrib)
  have a: "\<not> (?x0 < ?c \<and> ?c < ?xN) \<longrightarrow> contents ?h i = 0 \<and> contents ?h' i = 0"
  proof
    assume "\<not> (?x0 < ?c \<and> ?c < ?xN)"
    then have "spec_bin_content Integ S y mass (axis histo) i = 0"
      by (auto simp: spec_bin_content_def Let_def)
    then have "contents ?h i = 0" unfolding hi .
    with z show "contents ?h i = 0 \<and> contents ?h' i = 0" by simp
  qed
  have b: "?x0 < ?c \<and> ?c < ?xN \<longrightarrow>
           contents ?h i = max 0 (Integ (binxcenters S) y (max ?x0 ?lo) (min ?xN ?hi))"
    unfolding hi by (simp add: spec_bin_content_def Let_def)
  have c: "(?lo < ?x0 \<and> ?hi < ?x0) \<or> (?xN < ?lo \<and> ?xN < ?hi) \<longrightarrow>
           contents ?h i = 0 \<and> contents ?h' i = 0"
  proof
    assume "(?lo < ?x0 \<and> ?hi < ?x0) \<or> (?xN < ?lo \<and> ?xN < ?hi)"
    then have "\<not> (?x0 < ?c \<and> ?c < ?xN)" unfolding mid by (rule midpoint_outside)
    with a show "contents ?h i = 0 \<and> contents ?h' i = 0" by blast
  qed
  from a b c have "let x0 = ?x0; xN = ?xN; c = ?c; x_lo = ?lo; x_hi = ?hi
             in (\<not> (x0 < c \<and> c < xN) \<longrightarrow> contents ?h i = 0 \<and> contents ?h' i = 0)
              \<and> (x0 < c \<and> c < xN \<longrightarrow>
                   contents ?h i = max 0 (Integ (binxcenters S) y (max x0 x_lo) (min xN x_hi)))
              \<and> ((x_lo < x0 \<and> x_hi < x0) \<or> (xN < x_lo \<and> xN < x_hi) \<longrightarrow>
                   contents ?h i = 0 \<and> contents ?h' i = 0)"
    unfolding Let_def by blast
  with iy ib lp show ?thesis by blast
qed

text \<open>
  C4. For a valid storage, a non-zero target mass and any target histogram, the call
  returns and every bin content is at least 0, after the loop over the bins and after
  the normalisation: the loop sets each bin either to 0 or to the integral over the
  clamped window floored at 0.
\<close>

theorem bins_nonneg:
  assumes "valid_ShapeStorage S" and "mass \<noteq> 0"
  shows "\<exists>out y h h'.
           interpolate S mass = Inr (out, y)
         \<and> integrate_bins Integ S y mass [1..<GetNbinsX histo + 1] histo = Inr h
         \<and> LineShapePDF Integ S mass histo = Inr (out, h')
         \<and> (\<forall>i\<in>{1..GetNbinsX histo}.
               0 \<le> contents h i \<and> 0 \<le> contents h' i
             \<and> (contents h i = 0
                \<or> contents h i =
                    max 0 (Integ (binxcenters S) y
                      (max (hd (binxcenters S)) (GetBinLowEdge (axis histo) i / real_of_int mass))
                      (min (last (binxcenters S)) (GetBinUpEdge (axis histo) i / real_of_int mass)))))"
proof -
  from interpolate_total [OF assms(1)] obtain out y
    where iy: "interpolate S mass = Inr (out, y)" by blast
  let ?h = "integrated Integ S y mass histo"
  let ?h' = "snd (normalize ?h)"
  have ib: "integrate_bins Integ S y mass [1..<GetNbinsX histo + 1] histo = Inr ?h"
    by (rule integrate_bins_all [OF assms(2) valid_grid_nonempty [OF assms(1)]])
  have lp: "LineShapePDF Integ S mass histo = Inr (out, ?h')"
    by (rule LineShapePDF_eq [OF assms(1,2) iy])
  have nn: "\<And>b. 1 \<le> b \<Longrightarrow> b \<le> GetNbinsX ?h \<Longrightarrow> 0 \<le> contents ?h b"
    by (simp add: integrated_nbins integrated_bin spec_bin_content_nonneg)
  have "0 \<le> contents ?h i \<and> 0 \<le> contents ?h' i
      \<and> (contents ?h i = 0
         \<or> contents ?h i =
             max 0 (Integ (binxcenters S) y
               (max (hd (binxcenters S)) (GetBinLowEdge (axis histo) i / real_of_int mass))
               (min (last (binxcenters S)) (GetBinUpEdge (axis histo) i / real_of_int mass))))"
    if i: "i \<in> {1..GetNbinsX histo}" for i
  proof -
    from i have r: "1 \<le> i" "i \<le> GetNbinsX histo" by simp_all
    have "0 \<le> contents ?h i" using nn r by (simp add: integrated_nbins)
    moreover have "0 \<le> contents ?h' i"
      using nn r by (intro normalize_nonneg) (simp_all add: integrated_nbins)
    moreover have "contents ?h i = 0
         \<or> contents ?h i =
             max 0 (Integ (binxcenters S) y
               (max (hd (binxcenters S)) (GetBinLowEdge (axis histo) i / real_of_int mass))
               (min (last (binxcenters S)) (GetBinUpEdge (axis histo) i / real_of_int mass)))"
      unfolding integrated_bin [OF r] by (simp add: spec_bin_content_def Let_def)
    ultimately show ?thesis by blast
  qed
  with iy ib lp show ?thesis by blast
qed


text \<open>
  C5, amended. When the total \<open>T\<close> of the bin contents is positive, every cell is
  multiplied by \<open>1 / T\<close> and the new total is 1; when \<open>T \<le> 0\<close> the histogram is returned
  unchanged, without a failure and without anything printed; a histogram with \<open>T = 1\<close>
  is returned unchanged.
\<close>

theorem normalize_contract:
  "(Integral h > 0 \<longrightarrow>
      normalize h = ([], Scale h (1 / Integral h))
    \<and> (\<forall>b. contents (snd (normalize h)) b = contents h b * (1 / Integral h))
    \<and> Integral (snd (normalize h)) = 1)
 \<and> (Integral h \<le> 0 \<longrightarrow> normalize h = ([], h))
 \<and> (Integral h = 1 \<longrightarrow> normalize h = ([], h))"
proof -
  have a: "Integral h > 0 \<longrightarrow>
      normalize h = ([], Scale h (1 / Integral h))
    \<and> (\<forall>b. contents (snd (normalize h)) b = contents h b * (1 / Integral h))
    \<and> Integral (snd (normalize h)) = 1"
    by (simp add: normalize_Integral normalize_contents) (simp add: normalize_def)
  have b: "Integral h \<le> 0 \<longrightarrow> normalize h = ([], h)"
    by (simp add: normalize_def)
  have c: "Integral h = 1 \<longrightarrow> normalize h = ([], h)"
    by (simp add: normalize_def Scale_def)
  from a b c show ?thesis by blast
qed

lemma ex_histo_nbins: "GetNbinsX ex_histo = 4"
  by (simp add: ex_histo_def GetNbinsX_def new_TH1D_def)


lemma ex_mass: "(1000::int) \<noteq> 0"
  by simp

lemma ex_y: "interpolate ex_storage 1000 = Inr ([], [0.2, 0.3, 0.5])"
  by (simp add: interpolate_def ex_storage_def ex_shapes_def keys_def dict_get_def)

theorem bin_domain_clamp_witness:
  "\<exists>h h'. integrate_bins ex_integ ex_storage [0.2, 0.3, 0.5] 1000 [1..<GetNbinsX ex_histo + 1] ex_histo = Inr h
         \<and> LineShapePDF ex_integ ex_storage 1000 ex_histo = Inr ([], h')
         \<and> contents h 1 = 3 / 10 \<and> contents h 3 = 0 \<and> contents h' 3 = 0
         \<and> contents h 4 = 0 \<and> contents h' 4 = 0"
proof -
  have r3: "1 \<le> (3::nat)" "3 \<le> GetNbinsX ex_histo" and r4: "1 \<le> (4::nat)" "4 \<le> GetNbinsX ex_histo"
    by (simp_all add: ex_histo_nbins)
  have c3: "\<not> (hd (binxcenters ex_storage) < GetBinCenter (axis ex_histo) 3 / real_of_int 1000
              \<and> GetBinCenter (axis ex_histo) 3 / real_of_int 1000 < last (binxcenters ex_storage))"
    by code_simp
  have w4: "last (binxcenters ex_storage) < GetBinLowEdge (axis ex_histo) 4 / real_of_int 1000
          \<and> last (binxcenters ex_storage) < GetBinUpEdge (axis ex_histo) 4 / real_of_int 1000"
    by code_simp
  from bin_domain_clamp [OF valid_ex_storage ex_mass r3, of ex_integ] c3
  obtain out y h h' where a:
    "interpolate ex_storage 1000 = Inr (out, y)"
    "integrate_bins ex_integ ex_storage y 1000 [1..<GetNbinsX ex_histo + 1] ex_histo = Inr h"
    "LineShapePDF ex_integ ex_storage 1000 ex_histo = Inr (out, h')"
    "contents h 3 = 0" "contents h' 3 = 0"
    unfolding Let_def by blast
  from bin_domain_clamp [OF valid_ex_storage ex_mass r4, of ex_integ] w4
  obtain out4 y4 h4 h4' where b:
    "interpolate ex_storage 1000 = Inr (out4, y4)"
    "integrate_bins ex_integ ex_storage y4 1000 [1..<GetNbinsX ex_histo + 1] ex_histo = Inr h4"
    "LineShapePDF ex_integ ex_storage 1000 ex_histo = Inr (out4, h4')"
    "contents h4 4 = 0" "contents h4' 4 = 0"
    unfolding Let_def by blast
  from a(1) b(1) ex_y have y: "out = []" "y = [0.2, 0.3, 0.5]" "y4 = [0.2, 0.3, 0.5]" by simp_all
  from a(2) b(2) y have h4: "h4 = h" by simp
  from a(3) b(3) have h4': "h4' = h'" by simp
  have "(case integrate_bins ex_integ ex_storage [0.2, 0.3, 0.5] 1000 [1..<GetNbinsX ex_histo + 1] ex_histo
          of Inl e \<Rightarrow> None | Inr g \<Rightarrow> Some (contents g 1)) = Some (3 / 10)"
    by code_simp
  with a(2) y have "contents h 1 = 3 / 10" by simp
  with a b y h4 h4' show ?thesis by auto
qed

theorem bins_nonneg_witness:
  "ex_integ_neg ex_grid [0.2, 0.3, 0.5] 0.1 0.4 < 0
   \<and> (\<exists>h h'. integrate_bins ex_integ_neg ex_storage [0.2, 0.3, 0.5] 1000 [1..<GetNbinsX ex_histo + 1] ex_histo = Inr h
         \<and> LineShapePDF ex_integ_neg ex_storage 1000 ex_histo = Inr ([], h')
         \<and> contents h 1 = 0 \<and> 0 \<le> contents h 2 \<and> 0 \<le> contents h' 1 \<and> 0 \<le> contents h' 2)"
proof -
  have neg: "ex_integ_neg ex_grid [0.2, 0.3, 0.5] 0.1 0.4 < 0"
    by (simp add: ex_integ_neg_def)
  from bins_nonneg [OF valid_ex_storage ex_mass, of ex_integ_neg ex_histo]
  obtain out y h h' where a:
    "interpolate ex_storage 1000 = Inr (out, y)"
    "integrate_bins ex_integ_neg ex_storage y 1000 [1..<GetNbinsX ex_histo + 1] ex_histo = Inr h"
    "LineShapePDF ex_integ_neg ex_storage 1000 ex_histo = Inr (out, h')"
    and nn: "\<forall>i\<in>{1..GetNbinsX ex_histo}. 0 \<le> contents h i \<and> 0 \<le> contents h' i"
    by blast
  from a(1) ex_y have y: "out = []" "y = [0.2, 0.3, 0.5]" by simp_all
  from nn have "0 \<le> contents h 2" "0 \<le> contents h' 1" "0 \<le> contents h' 2"
    by (simp_all add: ex_histo_nbins)
  moreover have "(case integrate_bins ex_integ_neg ex_storage [0.2, 0.3, 0.5] 1000 [1..<GetNbinsX ex_histo + 1] ex_histo
          of Inl e \<Rightarrow> None | Inr g \<Rightarrow> Some (contents g 1)) = Some 0"
    by code_simp
  with a(2) y have "contents h 1 = 0" by simp
  ultimately show ?thesis using neg a y by auto
qed


theorem normalize_contract_witness:
  "normalize ex_counts = ([], Scale ex_counts (1 / 4))
   \<and> contents (snd (normalize ex_counts)) 1 = 1 / 4
   \<and> contents (snd (normalize ex_counts)) 2 = 3 / 4
   \<and> Integral (snd (normalize ex_counts)) = 1
   \<and> normalize ex_empty = ([], ex_empty)
   \<and> normalize ex_unit = ([], ex_unit)"
proof -
  have t: "Integral ex_counts = 4" "Integral ex_empty = 0" "Integral ex_unit = 1"
    by code_simp+
  have c: "contents ex_counts 1 = 1" "contents ex_counts 2 = 3"
    by (simp_all add: ex_counts_def)
  have pos: "Integral ex_counts > 0" using t(1) by simp
  from normalize_contract [of ex_counts] pos
  have n0: "normalize ex_counts = ([], Scale ex_counts (1 / Integral ex_counts))"
    and cc: "\<forall>b. contents (snd (normalize ex_counts)) b = contents ex_counts b * (1 / Integral ex_counts)"
    and one: "Integral (snd (normalize ex_counts)) = 1"
    by blast+
  note n = n0 [unfolded t(1)]
  from cc [unfolded t(1)]
  have "contents (snd (normalize ex_counts)) 1 = contents ex_counts 1 * (1 / 4)"
    "contents (snd (normalize ex_counts)) 2 = contents ex_counts 2 * (1 / 4)"
    by blast+
  with c have "contents (snd (normalize ex_counts)) 1 = 1 / 4"
    "contents (snd (normalize ex_counts)) 2 = 3 / 4"
    by simp_all
  note this n one
  moreover have "Integral ex_empty \<le> 0" using t(2) by simp
  with normalize_contract [of ex_empty] have "normalize ex_empty = ([], ex_empty)"
    by blast
  moreover from normalize_contract [of ex_unit] t(3) have "normalize ex_unit = ([], ex_unit)"
    by blast
  ultimately show ?thesis by blast
qed

text \<open>
  C5, as stated, fails on the warning: for the single bin from 2000 to 3000 at mass 1000
  the loop leaves a total of 0, and neither the normalisation step nor the whole call
  prints a line.
\<close>

theorem normalize_contract_counterexample:
  "integrate_bins ex_integ ex_storage [0.2, 0.3, 0.5] 1000 [1..<GetNbinsX ex_far_histo + 1] ex_far_histo
     = Inr (integrated ex_integ ex_storage [0.2, 0.3, 0.5] 1000 ex_far_histo)
   \<and> Integral (integrated ex_integ ex_storage [0.2, 0.3, 0.5] 1000 ex_far_histo) \<le> 0
   \<and> fst (normalize (integrated ex_integ ex_storage [0.2, 0.3, 0.5] 1000 ex_far_histo)) = []
   \<and> map_sum id fst (LineShapePDF ex_integ ex_storage 1000 ex_far_histo) = Inr []"
proof -
  have "binxcenters ex_storage \<noteq> []" by (simp add: ex_storage_def ex_grid_def)
  from integrate_bins_all [OF ex_mass this]
  have "integrate_bins ex_integ ex_storage [0.2, 0.3, 0.5] 1000 [1..<GetNbinsX ex_far_histo + 1] ex_far_histo
     = Inr (integrated ex_integ ex_storage [0.2, 0.3, 0.5] 1000 ex_far_histo)" .
  moreover have "Integral (integrated ex_integ ex_storage [0.2, 0.3, 0.5] 1000 ex_far_histo) \<le> 0"
    by code_simp
  moreover have "fst (normalize (integrated ex_integ ex_storage [0.2, 0.3, 0.5] 1000 ex_far_histo)) = []"
    by (simp add: normalize_def Let_def)
  moreover have "map_sum id fst (LineShapePDF ex_integ ex_storage 1000 ex_far_histo) = Inr []"
    by code_simp
  ultimately show ?thesis by blast
qed

section \<open>The PDF and CDF histograms\<close>

lemma fine_binwidth: "0 < n \<Longrightarrow> binwidth (FixBins n 0 (real n)) = 1"
  by (simp add: binwidth_def)

lemma fine_low: "0 < n \<Longrightarrow> GetBinLowEdge (FixBins n 0 (real n)) i = real i - 1"
  by (simp add: GetBinLowEdge_def has_edge_array_def fine_binwidth)

lemma fine_up: "0 < n \<Longrightarrow> GetBinUpEdge (FixBins n 0 (real n)) i = real i"
  by (simp add: GetBinUpEdge_def has_edge_array_def fine_binwidth)

lemma FindBin_fine:
  "0 < n \<Longrightarrow> FindBin (FixBins n 0 (real n)) x =
     (if x < 0 then 0 else if real n \<le> x then n + 1 else 1 + nat \<lfloor>x\<rfloor>)"
  by (simp add: FindBin_def not_less)

lemma FindBin_fine_le: "0 < n \<Longrightarrow> FindBin (FixBins n 0 (real n)) x \<le> n + 1"
proof -
  assume n: "0 < n"
  have "nat \<lfloor>x\<rfloor> < n" if "0 \<le> x" "x < real n"
  proof -
    from that have "\<lfloor>x\<rfloor> < int n" by (simp add: floor_less_iff)
    with that show ?thesis by linarith
  qed
  then show ?thesis using n by (auto simp: FindBin_fine not_less)
qed

lemma FindBin_fine_mid:
  assumes "0 < n" and "1 \<le> i" and "i \<le> n"
  shows "FindBin (FixBins n 0 (real n)) (real i - 1 + 0.5) = i"
    and "FindBin (FixBins n 0 (real n)) (real i - 0.5) = i"
proof -
  have f: "\<lfloor>real i - 1 / 2\<rfloor> = int i - 1" by linarith
  have "real i - 1 + 0.5 = real i - 1 / 2" by simp
  moreover have "FindBin (FixBins n 0 (real n)) (real i - 1 / 2) = i"
    using assms by (simp add: FindBin_fine f)
  ultimately show "FindBin (FixBins n 0 (real n)) (real i - 1 + 0.5) = i"
    and "FindBin (FixBins n 0 (real n)) (real i - 0.5) = i" by simp_all
qed

lemma FindBin_fine_mono:
  assumes "0 < n" and "x \<le> y"
  shows "FindBin (FixBins n 0 (real n)) x \<le> FindBin (FixBins n 0 (real n)) y"
proof -
  have "nat \<lfloor>x\<rfloor> \<le> nat \<lfloor>y\<rfloor>" using assms(2) by (simp add: floor_mono nat_mono)
  moreover have "nat \<lfloor>x\<rfloor> < n" if "0 \<le> x" "x < real n"
  proof -
    from that have "\<lfloor>x\<rfloor> < int n" by (simp add: floor_less_iff)
    with that show ?thesis by linarith
  qed
  ultimately show ?thesis using assms by (auto simp: FindBin_fine not_less)
qed

text \<open>The half-unit inset separates the bins found on the two sides of an edge.\<close>

lemma FindBin_fine_inset:
  assumes "0 < n" and "0 \<le> e" and "e \<le> real n"
  shows "FindBin (FixBins n 0 (real n)) (e - 0.5) < FindBin (FixBins n 0 (real n)) (e + 0.5)"
proof -
  have fl: "\<lfloor>e + 1 / 2\<rfloor> = \<lfloor>e - 1 / 2\<rfloor> + 1"
  proof -
    have "e + 1 / 2 = (e - 1 / 2) + 1" by simp
    then show ?thesis by (metis floor_add_int of_int_1)
  qed
  have lt: "nat \<lfloor>e - 1 / 2\<rfloor> < n" if "0 \<le> e - 1 / 2"
  proof -
    from assms(3) have "e - 1 / 2 < real n" by simp
    then have "\<lfloor>e - 1 / 2\<rfloor> < int n" by (simp add: floor_less_iff)
    with that show ?thesis by linarith
  qed
  have ge: "0 \<le> \<lfloor>e - 1 / 2\<rfloor>" if "0 \<le> e - 1 / 2" using that by simp
  show ?thesis
    using assms lt ge by (auto simp: FindBin_fine fl not_less nat_add_distrib)
qed

lemma fold_SetBinContent:
  assumes "\<forall>b\<in>set bs. b \<le> GetNbinsX h + 1"
  shows "fold (\<lambda>b g. SetBinContent g b v) bs h
         = h\<lparr>contents := (\<lambda>b. if b \<in> set bs then v else contents h b)\<rparr>"
  using assms
proof (induction bs arbitrary: h)
  case Nil
  then show ?case by simp
next
  case (Cons a bs)
  from Cons.prems have a: "a \<le> GetNbinsX h + 1" by simp
  from Cons.prems have "\<forall>b\<in>set bs. b \<le> GetNbinsX (SetBinContent h a v) + 1"
    by (simp add: SetBinContent_nbins)
  from Cons.IH [OF this] a show ?case
    by (auto simp: SetBinContent_def fun_eq_iff)
qed

lemma fine_nbins_axis: "axis h = FixBins n 0 (real n) \<Longrightarrow> GetNbinsX h = n"
  by (simp add: GetNbinsX_def)

lemma spread_bin_eq:
  assumes "0 < n" and "axis h_pdf = FixBins n 0 (real n)"
  shows "spread_bin h_shape i h_pdf
         = h_pdf\<lparr>contents := (\<lambda>b. if pdf_bin_min h_pdf h_shape i \<le> b \<and> b \<le> pdf_bin_max h_pdf h_shape i
                 then GetBinContent h_shape i
                      / real_of_int (pdf_width (pdf_bin_min h_pdf h_shape i) (pdf_bin_max h_pdf h_shape i))
                 else contents h_pdf b)\<rparr>"
proof -
  let ?lo = "pdf_bin_min h_pdf h_shape i" and ?hi = "pdf_bin_max h_pdf h_shape i"
  have "?hi \<le> n + 1" unfolding pdf_bin_max_def assms(2) by (rule FindBin_fine_le [OF assms(1)])
  then have "\<forall>b\<in>set [?lo..<?hi + 1]. b \<le> GetNbinsX h_pdf + 1"
    by (auto simp: fine_nbins_axis [OF assms(2)])
  from fold_SetBinContent [OF this]
  have "fold (\<lambda>b g. SetBinContent g b (GetBinContent h_shape i / real_of_int (pdf_width ?lo ?hi)))
          [?lo..<?hi + 1] h_pdf
        = h_pdf\<lparr>contents := (\<lambda>b. if b \<in> set [?lo..<?hi + 1]
              then GetBinContent h_shape i / real_of_int (pdf_width ?lo ?hi)
              else contents h_pdf b)\<rparr>" .
  moreover have "\<And>b. b \<in> set [?lo..<?hi + 1] \<longleftrightarrow> ?lo \<le> b \<and> b \<le> ?hi" by auto
  ultimately show ?thesis unfolding spread_bin_def Let_def by (simp only:)
qed

lemma spread_bin_axis:
  assumes "0 < n" and "axis h_pdf = FixBins n 0 (real n)"
  shows "axis (spread_bin h_shape i h_pdf) = FixBins n 0 (real n)"
  unfolding spread_bin_eq [OF assms] using assms(2) by simp

lemma pdf_bin_min_cong: "axis h = axis h' \<Longrightarrow> pdf_bin_min h hs i = pdf_bin_min h' hs i"
  by (simp add: pdf_bin_min_def)

lemma pdf_bin_max_cong: "axis h = axis h' \<Longrightarrow> pdf_bin_max h hs i = pdf_bin_max h' hs i"
  by (simp add: pdf_bin_max_def)

lemma pdf_width_pos: "0 < real_of_int (pdf_width a b)"
  by (simp add: pdf_width_def)

lemma fold_spread_axis:
  assumes "0 < n" and "axis h_pdf = FixBins n 0 (real n)"
  shows "axis (fold (spread_bin h_shape) js h_pdf) = FixBins n 0 (real n)"
  using assms(2)
proof (induction js arbitrary: h_pdf)
  case Nil
  then show ?case by simp
next
  case (Cons j js)
  from Cons.IH [OF spread_bin_axis [OF assms(1) Cons.prems]] show ?case by simp
qed

lemma fold_spread_nonneg:
  assumes "0 < n" and "axis h_pdf = FixBins n 0 (real n)"
    and "\<forall>b. 0 \<le> contents h_pdf b" and "\<forall>j\<in>set js. 0 \<le> GetBinContent h_shape j"
  shows "\<forall>b. 0 \<le> contents (fold (spread_bin h_shape) js h_pdf) b"
  using assms(2,3,4)
proof (induction js arbitrary: h_pdf)
  case Nil
  then show ?case by simp
next
  case (Cons j js)
  let ?h = "spread_bin h_shape j h_pdf"
  have ax: "axis ?h = FixBins n 0 (real n)" by (rule spread_bin_axis [OF assms(1) Cons.prems(1)])
  from Cons.prems(3) have j: "0 \<le> GetBinContent h_shape j" by simp
  have "\<forall>b. 0 \<le> contents ?h b"
    unfolding spread_bin_eq [OF assms(1) Cons.prems(1)]
    using Cons.prems(2) j pdf_width_pos by (simp add: divide_nonneg_pos)
  moreover from Cons.prems(3) have "\<forall>j\<in>set js. 0 \<le> GetBinContent h_shape j" by simp
  ultimately show ?case using Cons.IH [OF ax] by simp
qed

lemma fold_spread_untouched:
  assumes "0 < n" and "axis h_pdf = FixBins n 0 (real n)"
    and "\<forall>j\<in>set js. \<not> (pdf_bin_min h_pdf h_shape j \<le> b \<and> b \<le> pdf_bin_max h_pdf h_shape j)"
  shows "contents (fold (spread_bin h_shape) js h_pdf) b = contents h_pdf b"
  using assms(2,3)
proof (induction js arbitrary: h_pdf)
  case Nil
  then show ?case by simp
next
  case (Cons j js)
  let ?h = "spread_bin h_shape j h_pdf"
  have ax: "axis ?h = FixBins n 0 (real n)" by (rule spread_bin_axis [OF assms(1) Cons.prems(1)])
  then have e: "axis ?h = axis h_pdf" using Cons.prems(1) by simp
  from Cons.prems(2)
  have "\<forall>k\<in>set js. \<not> (pdf_bin_min ?h h_shape k \<le> b \<and> b \<le> pdf_bin_max ?h h_shape k)"
    unfolding pdf_bin_min_cong [OF e] pdf_bin_max_cong [OF e] by simp
  from Cons.IH [OF ax this] have "contents (fold (spread_bin h_shape) js ?h) b = contents ?h b" .
  also have "\<dots> = contents h_pdf b"
    unfolding spread_bin_eq [OF assms(1) Cons.prems(1)] using Cons.prems(2) by auto
  finally show ?case by simp
qed

lemma fold_spread_value:
  assumes "0 < n" and "axis h_pdf = FixBins n 0 (real n)"
    and "i \<in> set js" and "pdf_bin_min h_pdf h_shape i \<le> b" and "b \<le> pdf_bin_max h_pdf h_shape i"
    and "sorted_wrt (<) js"
    and "\<And>j k. j \<in> set js \<Longrightarrow> k \<in> set js \<Longrightarrow> j < k \<Longrightarrow>
           pdf_bin_max h_pdf h_shape j < pdf_bin_min h_pdf h_shape k"
  shows "contents (fold (spread_bin h_shape) js h_pdf) b
         = GetBinContent h_shape i
           / real_of_int (pdf_width (pdf_bin_min h_pdf h_shape i) (pdf_bin_max h_pdf h_shape i))"
  using assms(2-7)
proof (induction js arbitrary: h_pdf)
  case Nil
  then show ?case by simp
next
  case (Cons j js)
  let ?h = "spread_bin h_shape j h_pdf"
  have ax: "axis ?h = FixBins n 0 (real n)" by (rule spread_bin_axis [OF assms(1) Cons.prems(1)])
  then have e: "axis ?h = axis h_pdf" using Cons.prems(1) by simp
  show ?case
  proof (cases "i = j")
    case True
    have "\<forall>k\<in>set js. \<not> (pdf_bin_min ?h h_shape k \<le> b \<and> b \<le> pdf_bin_max ?h h_shape k)"
    proof
      fix k assume k: "k \<in> set js"
      with Cons.prems(5) have "j < k" by simp
      with Cons.prems(6) [of j k] k
      have "pdf_bin_max h_pdf h_shape j < pdf_bin_min h_pdf h_shape k" by simp
      with Cons.prems(4) True have "b < pdf_bin_min h_pdf h_shape k" by simp
      then show "\<not> (pdf_bin_min ?h h_shape k \<le> b \<and> b \<le> pdf_bin_max ?h h_shape k)"
        unfolding pdf_bin_min_cong [OF e] by simp
    qed
    from fold_spread_untouched [OF assms(1) ax this]
    have "contents (fold (spread_bin h_shape) js ?h) b = contents ?h b" .
    also have "\<dots> = GetBinContent h_shape i
           / real_of_int (pdf_width (pdf_bin_min h_pdf h_shape i) (pdf_bin_max h_pdf h_shape i))"
      unfolding spread_bin_eq [OF assms(1) Cons.prems(1)] using Cons.prems(3,4) True by simp
    finally show ?thesis by simp
  next
    case False
    with Cons.prems(2) have i: "i \<in> set js" by simp
    from Cons.prems(5) have s: "sorted_wrt (<) js" by simp
    have "contents (fold (spread_bin h_shape) js ?h) b
         = GetBinContent h_shape i
           / real_of_int (pdf_width (pdf_bin_min ?h h_shape i) (pdf_bin_max ?h h_shape i))"
    proof (rule Cons.IH [OF ax i _ _ s])
      show "pdf_bin_min ?h h_shape i \<le> b" unfolding pdf_bin_min_cong [OF e] by (rule Cons.prems(3))
      show "b \<le> pdf_bin_max ?h h_shape i" unfolding pdf_bin_max_cong [OF e] by (rule Cons.prems(4))
      fix j' k assume "j' \<in> set js" "k \<in> set js" "j' < k"
      with Cons.prems(6) [of j' k]
      show "pdf_bin_max ?h h_shape j' < pdf_bin_min ?h h_shape k"
        unfolding pdf_bin_min_cong [OF e] pdf_bin_max_cong [OF e] by simp
    qed
    then show ?thesis unfolding pdf_bin_min_cong [OF e] pdf_bin_max_cong [OF e] by simp
  qed
qed

lemma valid_axis_up_le_low:
  assumes "valid_axis ax" and "1 \<le> i" and "i < k" and "k \<le> GetNbins ax"
  shows "GetBinUpEdge ax i \<le> GetBinLowEdge ax k"
proof (cases ax)
  case (FixBins N lo hi)
  with assms(1) have w: "0 < binwidth ax" by (simp add: valid_axis_def binwidth_def)
  from assms(3) have "real i \<le> real k - 1" by linarith
  with w have "real i * binwidth ax \<le> (real k - 1) * binwidth ax"
    by (simp add: mult_right_mono)
  then show ?thesis using FixBins by (simp add: GetBinUpEdge_def GetBinLowEdge_def has_edge_array_def)
next
  case (VarBins es)
  with assms(1) have s: "sorted_wrt (<) es" and l: "2 \<le> length es" by (simp_all add: valid_axis_def)
  from assms VarBins have r: "i \<le> k - 1" "k - 1 < length es" by simp_all
  have "es ! i \<le> es ! (k - 1)"
  proof (cases "i = k - 1")
    case True
    then show ?thesis by simp
  next
    case False
    with r have "i < k - 1" by simp
    with s r(2) have "es ! i < es ! (k - 1)" by (simp add: sorted_wrt_nth_less)
    then show ?thesis by simp
  qed
  then show ?thesis using VarBins assms
    by (simp add: GetBinUpEdge_def GetBinLowEdge_def has_edge_array_def)
qed

lemma valid_axis_up_range:
  assumes "valid_axis ax" and "1 \<le> i" and "i \<le> GetNbins ax"
  shows "GetXmin ax \<le> GetBinUpEdge ax i" and "GetBinUpEdge ax i \<le> GetXmax ax"
proof -
  show "GetXmin ax \<le> GetBinUpEdge ax i"
  proof (cases ax)
    case (FixBins N lo hi)
    with assms(1) have w: "0 < binwidth ax" by (simp add: valid_axis_def binwidth_def)
    then have "0 \<le> real i * binwidth ax" by simp
    then show ?thesis using FixBins by (simp add: GetBinUpEdge_def has_edge_array_def)
  next
    case (VarBins es)
    with assms(1) have s: "sorted_wrt (<) es" and l: "2 \<le> length es" by (simp_all add: valid_axis_def)
    from assms VarBins have r: "0 < i" "i < length es" by simp_all
    with s have "es ! 0 < es ! i" by (simp add: sorted_wrt_nth_less)
    moreover from l have "hd es = es ! 0" by (cases es) simp_all
    ultimately show ?thesis using VarBins assms by (simp add: GetBinUpEdge_def has_edge_array_def)
  qed
  show "GetBinUpEdge ax i \<le> GetXmax ax"
  proof (cases ax)
    case (FixBins N lo hi)
    with assms(1) have w: "0 < binwidth ax" and N: "0 < N" by (simp_all add: valid_axis_def binwidth_def)
    from assms(3) FixBins have "real i \<le> real N" by simp
    with w have "real i * binwidth ax \<le> real N * binwidth ax" by (simp add: mult_right_mono)
    also have "real N * binwidth ax = hi - lo" using N FixBins by (simp add: binwidth_def)
    finally show ?thesis using FixBins by (simp add: GetBinUpEdge_def has_edge_array_def)
  next
    case (VarBins es)
    with assms(1) have s: "sorted_wrt (<) es" and l: "2 \<le> length es" by (simp_all add: valid_axis_def)
    from assms VarBins have r: "i \<le> length es - 1" "length es - 1 < length es" by simp_all
    have "es ! i \<le> es ! (length es - 1)"
    proof (cases "i = length es - 1")
      case True
      then show ?thesis by simp
    next
      case False
      with r have "i < length es - 1" by simp
      with s r(2) have "es ! i < es ! (length es - 1)" by (simp add: sorted_wrt_nth_less)
      then show ?thesis by simp
    qed
    moreover from l have "es \<noteq> []" by auto
    then have "last es = es ! (length es - 1)" by (rule last_conv_nth)
    ultimately show ?thesis using VarBins assms by (simp add: GetBinUpEdge_def has_edge_array_def)
  qed
qed

lemma fine_contains:
  assumes "0 < n" and "0 \<le> x" and "x < real n"
  shows "GetBinLowEdge (FixBins n 0 (real n)) (FindBin (FixBins n 0 (real n)) x) \<le> x"
    and "x < GetBinUpEdge (FixBins n 0 (real n)) (FindBin (FixBins n 0 (real n)) x)"
proof -
  from assms(2) have "real (nat \<lfloor>x\<rfloor>) = of_int \<lfloor>x\<rfloor>" by simp
  then have a: "real (nat \<lfloor>x\<rfloor>) \<le> x" "x < real (nat \<lfloor>x\<rfloor>) + 1" by linarith+
  from a(1) show "GetBinLowEdge (FixBins n 0 (real n)) (FindBin (FixBins n 0 (real n)) x) \<le> x"
    using assms by (simp add: FindBin_fine fine_low)
  from a(2) assms(2) show "x < GetBinUpEdge (FixBins n 0 (real n)) (FindBin (FixBins n 0 (real n)) x)"
    using assms by (simp add: FindBin_fine fine_up add.commute)
qed

lemma GetBinContent_in: "i \<le> GetNbinsX h + 1 \<Longrightarrow> GetBinContent h i = contents h i"
  by (simp add: GetBinContent_def)

lemma pdf_ranges_disjoint:
  assumes "0 < n" and "axis h_pdf = FixBins n 0 (real n)" and "valid_axis (axis h_shape)"
    and "0 \<le> GetXmin (axis h_shape)" and "GetXmax (axis h_shape) \<le> real n"
    and "1 \<le> j" and "j < k" and "k \<le> GetNbinsX h_shape"
  shows "pdf_bin_max h_pdf h_shape j < pdf_bin_min h_pdf h_shape k"
proof -
  let ?F = "FixBins n 0 (real n)"
  let ?e = "GetBinUpEdge (axis h_shape) j"
  from assms(7,8) have jn: "j \<le> GetNbins (axis h_shape)" by (simp add: GetNbinsX_def)
  from valid_axis_up_range [OF assms(3,6) jn] assms(4,5) have e: "0 \<le> ?e" "?e \<le> real n" by simp_all
  from assms(8) have "k \<le> GetNbins (axis h_shape)" by (simp add: GetNbinsX_def)
  from valid_axis_up_le_low [OF assms(3,6,7) this]
  have "?e + 0.5 \<le> GetBinLowEdge (axis h_shape) k + 0.5" by simp
  from FindBin_fine_mono [OF assms(1) this]
  have "FindBin ?F (?e + 0.5) \<le> pdf_bin_min h_pdf h_shape k"
    by (simp add: pdf_bin_min_def assms(2))
  moreover from FindBin_fine_inset [OF assms(1) e]
  have "pdf_bin_max h_pdf h_shape j < FindBin ?F (?e + 0.5)"
    by (simp add: pdf_bin_max_def assms(2))
  ultimately show ?thesis by simp
qed

lemma new_TH1D_axis: "axis (new_TH1D ax) = ax"
  by (simp add: new_TH1D_def)

lemma expand_density_fst:
  "fst (expand_density n h_shape) = fill_pdf h_shape (new_TH1D (FixBins n 0 (real n)))"
  by (simp add: expand_density_def Let_def)

lemma expand_density_snd:
  "snd (expand_density n h_shape)
   = fill_cdf (fill_pdf h_shape (new_TH1D (FixBins n 0 (real n)))) (new_TH1D (FixBins n 0 (real n)))"
  by (simp add: expand_density_def Let_def)

text \<open>
  C9. For a fine grid of \<open>n\<close> unit bins from 0 and a coarse histogram whose binning is
  valid and lies within \<open>[0, n]\<close>, and for every coarse bin \<open>i\<close>: with \<open>b_lo\<close> the fine bin
  found for the lower edge plus half a unit and \<open>b_hi\<close> the fine bin found for the upper
  edge minus half a unit (each contains its coordinate when that lies on the grid), and
  \<open>width = max(1, b_hi - b_lo + 1)\<close>, every fine bin with index in \<open>[b_lo, b_hi]\<close> of the
  finished PDF holds \<open>content[i] / width\<close>.
\<close>

theorem pdf_spread:
  assumes "0 < n" and "valid_axis (axis h_shape)"
    and "0 \<le> GetXmin (axis h_shape)" and "GetXmax (axis h_shape) \<le> real n"
    and "1 \<le> i" and "i \<le> GetNbinsX h_shape"
  shows "let fine = FixBins n 0 (real n);
             x_lo = GetBinLowEdge (axis h_shape) i + 0.5;
             x_hi = GetBinUpEdge (axis h_shape) i - 0.5;
             b_lo = FindBin fine x_lo;
             b_hi = FindBin fine x_hi;
             width = max 1 (int b_hi - int b_lo + 1)
         in (0 \<le> x_lo \<and> x_lo < real n \<longrightarrow>
               GetBinLowEdge fine b_lo \<le> x_lo \<and> x_lo < GetBinUpEdge fine b_lo)
          \<and> (0 \<le> x_hi \<and> x_hi < real n \<longrightarrow>
               GetBinLowEdge fine b_hi \<le> x_hi \<and> x_hi < GetBinUpEdge fine b_hi)
          \<and> (\<forall>b\<in>{b_lo..b_hi}.
               contents (fst (expand_density n h_shape)) b = contents h_shape i / real_of_int width)"
proof -
  let ?F = "FixBins n 0 (real n)"
  let ?p0 = "new_TH1D ?F"
  let ?xlo = "GetBinLowEdge (axis h_shape) i + 0.5"
  let ?xhi = "GetBinUpEdge (axis h_shape) i - 0.5"
  let ?js = "[1..<GetNbinsX h_shape + 1]"
  have ax: "axis ?p0 = ?F" by (rule new_TH1D_axis)
  have lo: "pdf_bin_min ?p0 h_shape i = FindBin ?F ?xlo" by (simp add: pdf_bin_min_def ax)
  have hi: "pdf_bin_max ?p0 h_shape i = FindBin ?F ?xhi" by (simp add: pdf_bin_max_def ax)
  have c1: "0 \<le> ?xlo \<and> ?xlo < real n \<longrightarrow>
          GetBinLowEdge ?F (FindBin ?F ?xlo) \<le> ?xlo \<and> ?xlo < GetBinUpEdge ?F (FindBin ?F ?xlo)"
    using fine_contains [OF assms(1), of ?xlo] by blast
  have c2: "0 \<le> ?xhi \<and> ?xhi < real n \<longrightarrow>
          GetBinLowEdge ?F (FindBin ?F ?xhi) \<le> ?xhi \<and> ?xhi < GetBinUpEdge ?F (FindBin ?F ?xhi)"
    using fine_contains [OF assms(1), of ?xhi] by blast
  have mem: "i \<in> set ?js" using assms(5,6) by (simp del: upt_Suc)
  have srt: "sorted_wrt (<) ?js" by (simp del: upt_Suc)
  have dis: "pdf_bin_max ?p0 h_shape j < pdf_bin_min ?p0 h_shape k"
    if "j \<in> set ?js" "k \<in> set ?js" "j < k" for j k
  proof -
    from that have "1 \<le> j" "k \<le> GetNbinsX h_shape" by (simp_all del: upt_Suc)
    from pdf_ranges_disjoint [OF assms(1) ax assms(2,3,4) this(1) that(3) this(2)] show ?thesis .
  qed
  have c3: "\<forall>b\<in>{FindBin ?F ?xlo..FindBin ?F ?xhi}.
          contents (fst (expand_density n h_shape)) b
          = contents h_shape i / real_of_int (max 1 (int (FindBin ?F ?xhi) - int (FindBin ?F ?xlo) + 1))"
  proof
    fix b assume "b \<in> {FindBin ?F ?xlo..FindBin ?F ?xhi}"
    then have b: "pdf_bin_min ?p0 h_shape i \<le> b" "b \<le> pdf_bin_max ?p0 h_shape i"
      by (simp_all add: lo hi)
    from fold_spread_value [OF assms(1) ax mem b srt dis]
    have "contents (fill_pdf h_shape ?p0) b
          = GetBinContent h_shape i
            / real_of_int (pdf_width (pdf_bin_min ?p0 h_shape i) (pdf_bin_max ?p0 h_shape i))"
      unfolding fill_pdf_def by simp
    moreover have "GetBinContent h_shape i = contents h_shape i"
      using assms(6) by (simp add: GetBinContent_in)
    ultimately show "contents (fst (expand_density n h_shape)) b
          = contents h_shape i / real_of_int (max 1 (int (FindBin ?F ?xhi) - int (FindBin ?F ?xlo) + 1))"
      by (simp add: expand_density_fst lo hi pdf_width_def)
  qed
  from c1 c2 c3 show ?thesis unfolding Let_def by blast
qed

lemma ex_coarse_axis: "axis ex_coarse = VarBins [0, 2, 3, 6]"
  by (simp add: ex_coarse_def)

lemma valid_ex_coarse: "valid_axis (axis ex_coarse)"
  by (simp add: ex_coarse_axis valid_axis_def)

lemma main_binning_valid:
  "valid_axis (axis (main_h_shape fb))"
  "0 \<le> GetXmin (axis (main_h_shape fb))"
  "GetXmax (axis (main_h_shape fb)) \<le> real fine_nbins"
proof -
  have s: "sorted_wrt (<) binBoundaries" by code_simp
  have l: "length binBoundaries = 104" unfolding binBoundaries_def by simp
  have h: "hd binBoundaries = 1" "last binBoundaries = 14000" unfolding binBoundaries_def by simp_all
  show "valid_axis (axis (main_h_shape fb))"
    using s l by (simp add: main_h_shape_def new_TH1D_axis valid_axis_def fine_nbins_def)
  show "0 \<le> GetXmin (axis (main_h_shape fb))"
    using h by (simp add: main_h_shape_def new_TH1D_axis)
  show "GetXmax (axis (main_h_shape fb)) \<le> real fine_nbins"
    using h by (simp add: main_h_shape_def new_TH1D_axis fine_nbins_def)
qed

theorem pdf_spread_witness:
  "contents (fst (expand_density 6 ex_coarse)) 1 = 1 / 4
   \<and> contents (fst (expand_density 6 ex_coarse)) 2 = 1 / 4
   \<and> contents (fst (expand_density 6 ex_coarse)) 4 = 1 / 12
   \<and> contents (fst (expand_density 6 ex_coarse)) 5 = 1 / 12
   \<and> contents (fst (expand_density 6 ex_coarse)) 6 = 1 / 12"
proof -
  have n: "0 < (6::nat)" and r: "0 \<le> GetXmin (axis ex_coarse)" "GetXmax (axis ex_coarse) \<le> real 6"
    by (simp_all add: ex_coarse_axis)
  have i1: "1 \<le> (1::nat)" "1 \<le> GetNbinsX ex_coarse" and i3: "1 \<le> (3::nat)" "3 \<le> GetNbinsX ex_coarse"
    by (simp_all add: GetNbinsX_def ex_coarse_axis)
  have f1: "FindBin (FixBins 6 0 (real 6)) (GetBinLowEdge (axis ex_coarse) 1 + 0.5) = 1"
    "FindBin (FixBins 6 0 (real 6)) (GetBinUpEdge (axis ex_coarse) 1 - 0.5) = 2"
    by code_simp+
  have f3: "FindBin (FixBins 6 0 (real 6)) (GetBinLowEdge (axis ex_coarse) 3 + 0.5) = 4"
    "FindBin (FixBins 6 0 (real 6)) (GetBinUpEdge (axis ex_coarse) 3 - 0.5) = 6"
    by code_simp+
  have c: "contents ex_coarse 1 = 1 / 2" "contents ex_coarse 3 = 1 / 4"
    by (simp_all add: ex_coarse_def)
  from pdf_spread [OF n valid_ex_coarse r i1]
  have "\<forall>b\<in>{1..2}. contents (fst (expand_density 6 ex_coarse)) b = 1 / 4"
    unfolding Let_def f1 c by simp
  then have a: "contents (fst (expand_density 6 ex_coarse)) 1 = 1 / 4"
    "contents (fst (expand_density 6 ex_coarse)) 2 = 1 / 4" by simp_all
  from pdf_spread [OF n valid_ex_coarse r i3]
  have "\<forall>b\<in>{4..6}. contents (fst (expand_density 6 ex_coarse)) b = 1 / 12"
    unfolding Let_def f3 c by simp
  then have b: "contents (fst (expand_density 6 ex_coarse)) 4 = 1 / 12"
    "contents (fst (expand_density 6 ex_coarse)) 5 = 1 / 12"
    "contents (fst (expand_density 6 ex_coarse)) 6 = 1 / 12" by simp_all
  from a b show ?thesis by blast
qed

lemma accumulate_bin_eq:
  assumes "0 < n" and "axis h_pdf = FixBins n 0 (real n)" and "axis h_cdf = FixBins n 0 (real n)"
    and "1 \<le> i" and "i \<le> n"
  shows "accumulate_bin h_pdf i h_cdf
         = h_cdf\<lparr>contents := (contents h_cdf)(i := contents h_cdf (i - 1) + contents h_pdf i)\<rparr>"
proof -
  note mid = FindBin_fine_mid [OF assms(1,4,5)]
  have lo: "pdf_bin_min h_pdf h_cdf i = i"
    by (simp only: pdf_bin_min_def assms(2,3) fine_low [OF assms(1)] mid(1))
  have hi: "pdf_bin_max h_pdf h_cdf i = i"
    by (simp only: pdf_bin_max_def assms(2,3) fine_up [OF assms(1)] mid(2))
  have np: "GetNbinsX h_pdf = n" and nc: "GetNbinsX h_cdf = n"
    using assms(2,3) by (simp_all add: GetNbinsX_def)
  have g1: "GetBinContent h_pdf i = contents h_pdf i"
    using assms(5) by (simp add: GetBinContent_in np)
  have g2: "GetBinContent h_cdf (i - 1) = contents h_cdf (i - 1)"
    using assms(5) by (simp add: GetBinContent_in nc)
  have u: "[i..<i + 1] = [i]" by simp
  show ?thesis
    unfolding accumulate_bin_def Let_def lo hi u
    using assms(5) g1 g2 by (simp add: SetBinContent_def nc)
qed

lemma fold_accumulate:
  assumes "0 < n" and "axis h_pdf = FixBins n 0 (real n)" and "axis h_cdf = FixBins n 0 (real n)"
    and "k \<le> n"
  shows "fold (accumulate_bin h_pdf) [1..<k + 1] h_cdf
         = h_cdf\<lparr>contents := (\<lambda>b. if 1 \<le> b \<and> b \<le> k
                                  then contents h_cdf 0 + (\<Sum>j = 1..b. contents h_pdf j)
                                  else contents h_cdf b)\<rparr>"
  using assms(4)
proof (induction k)
  case 0
  have "(\<lambda>b. if 1 \<le> b \<and> b \<le> 0
              then contents h_cdf 0 + (\<Sum>j = 1..b. contents h_pdf j)
              else contents h_cdf b) = contents h_cdf"
    by (auto simp: fun_eq_iff)
  then show ?case by simp
next
  case (Suc k)
  let ?c = "h_cdf\<lparr>contents := (\<lambda>b. if 1 \<le> b \<and> b \<le> k
                                  then contents h_cdf 0 + (\<Sum>j = 1..b. contents h_pdf j)
                                  else contents h_cdf b)\<rparr>"
  from Suc.prems have k: "k \<le> n" by simp
  have "[1..<Suc k + 1] = [1..<k + 1] @ [Suc k]" by simp
  then have "fold (accumulate_bin h_pdf) [1..<Suc k + 1] h_cdf
             = accumulate_bin h_pdf (Suc k) (fold (accumulate_bin h_pdf) [1..<k + 1] h_cdf)"
    by (simp only: fold_append fold.simps comp_apply id_apply)
  also have "\<dots> = accumulate_bin h_pdf (Suc k) ?c" by (simp only: Suc.IH [OF k])
  also have "\<dots> = ?c\<lparr>contents := (contents ?c)(Suc k := contents ?c (Suc k - 1) + contents h_pdf (Suc k))\<rparr>"
    using Suc.prems assms(3) by (intro accumulate_bin_eq [OF assms(1,2)]) simp_all
  also have "\<dots> = h_cdf\<lparr>contents := (\<lambda>b. if 1 \<le> b \<and> b \<le> Suc k
                                  then contents h_cdf 0 + (\<Sum>j = 1..b. contents h_pdf j)
                                  else contents h_cdf b)\<rparr>"
  proof -
    have v: "contents ?c k + contents h_pdf (Suc k)
             = contents h_cdf 0 + (\<Sum>j = 1..Suc k. contents h_pdf j)"
      by (cases k) simp_all
    have "(contents ?c)(Suc k := contents ?c (Suc k - 1) + contents h_pdf (Suc k))
          = (\<lambda>b. if 1 \<le> b \<and> b \<le> Suc k
                  then contents h_cdf 0 + (\<Sum>j = 1..b. contents h_pdf j)
                  else contents h_cdf b)"
    proof (rule ext)
      fix b
      show "((contents ?c)(Suc k := contents ?c (Suc k - 1) + contents h_pdf (Suc k))) b
            = (if 1 \<le> b \<and> b \<le> Suc k
                  then contents h_cdf 0 + (\<Sum>j = 1..b. contents h_pdf j)
                  else contents h_cdf b)"
      proof (cases "b = Suc k")
        case True
        with v show ?thesis by simp
      next
        case False
        then show ?thesis by (simp add: le_Suc_eq)
      qed
    qed
    then show ?thesis by simp
  qed
  finally show ?case .
qed

lemma set_bin_axis: "set_bin Integ S y mass i h = Inr h' \<Longrightarrow> axis h' = axis h"
  by (auto simp: set_bin_def SetBinContent_def Let_def split: if_splits)

lemma integrate_bins_axis:
  "integrate_bins Integ S y mass js h = Inr h' \<Longrightarrow> axis h' = axis h"
proof (induction js arbitrary: h)
  case Nil
  then show ?case by simp
next
  case (Cons j js)
  from Cons.prems obtain g where g: "set_bin Integ S y mass j h = Inr g"
    and r: "integrate_bins Integ S y mass js g = Inr h'"
    by (auto split: sum.splits)
  from Cons.IH [OF r] set_bin_axis [OF g] show ?case by simp
qed

lemma set_bin_Inr_D:
  "set_bin Integ S y mass j h = Inr g \<Longrightarrow> mass \<noteq> 0 \<and> binxcenters S \<noteq> []"
  by (auto simp: set_bin_def Let_def split: if_splits)

lemma LineShapePDF_Inr_nonneg:
  assumes "LineShapePDF Integ S mass histo = Inr (out, h')" and "1 \<le> i" and "i \<le> GetNbinsX h'"
  shows "0 \<le> contents h' i"
proof -
  from assms(1) obtain w y h where y: "interpolate S mass = Inr (w, y)"
    and h: "integrate_bins Integ S y mass [1..<GetNbinsX histo + 1] histo = Inr h"
    and h': "h' = snd (normalize h)"
    by (auto simp: LineShapePDF_def split: sum.splits prod.splits)
  from integrate_bins_axis [OF h] have nb: "GetNbinsX h = GetNbinsX histo" by (simp add: GetNbinsX_def)
  with assms(2,3) h' have N: "1 \<le> GetNbinsX histo" by (simp add: normalize_nbins)
  then have "1 < GetNbinsX histo + 1" by simp
  from upt_conv_Cons [OF this] obtain js where "[1..<GetNbinsX histo + 1] = 1 # js" by blast
  with h obtain g where "set_bin Integ S y mass 1 histo = Inr g"
    by (auto split: sum.splits)
  from set_bin_Inr_D [OF this] have m: "mass \<noteq> 0" and x: "binxcenters S \<noteq> []" by simp_all
  from integrate_bins_all [OF m x, of Integ y histo] h
  have hh: "h = integrated Integ S y mass histo" by simp
  have "\<And>b. 1 \<le> b \<Longrightarrow> b \<le> GetNbinsX h \<Longrightarrow> 0 \<le> contents h b"
    unfolding hh by (simp add: integrated_nbins integrated_bin spec_bin_content_nonneg)
  from normalize_nonneg [OF this assms(2)] assms(3) h' show ?thesis
    by (simp add: normalize_nbins)
qed

text \<open>
  C8. For the PDF and CDF built from a histogram returned by LineShapePDF: the running
  total starts from 0 (the cell before the first bin), each CDF bin is the previous one
  plus the PDF bin, so \<open>CDF[i] \<ge> CDF[i - 1]\<close> for every bin \<open>i\<close>, and the last CDF bin
  equals the content sum of the PDF.
\<close>

theorem cdf_monotone:
  assumes "LineShapePDF Integ S mass histo = Inr (out, h_shape)" and "0 < n"
    and "expand_density n h_shape = (h_pdf, h_cdf)"
  shows "contents h_cdf 0 = 0
       \<and> (\<forall>i\<in>{1..n}. contents h_cdf i = contents h_cdf (i - 1) + contents h_pdf i
                    \<and> contents h_cdf (i - 1) \<le> contents h_cdf i)
       \<and> contents h_cdf n = Integral h_pdf"
proof -
  let ?F = "FixBins n 0 (real n)"
  let ?p0 = "new_TH1D ?F"
  from assms(3) have p: "h_pdf = fill_pdf h_shape ?p0" and c: "h_cdf = fill_cdf h_pdf ?p0"
    by (auto simp: expand_density_def Let_def)
  have ax0: "axis ?p0 = ?F" by (rule new_TH1D_axis)
  have axp: "axis h_pdf = ?F" unfolding p fill_pdf_def by (rule fold_spread_axis [OF assms(2) ax0])
  have np: "GetNbinsX h_pdf = n" using axp by (simp add: GetNbinsX_def)
  have "\<forall>j\<in>set [1..<GetNbinsX h_shape + 1]. 0 \<le> GetBinContent h_shape j"
  proof
    fix j assume "j \<in> set [1..<GetNbinsX h_shape + 1]"
    then have j: "1 \<le> j" "j \<le> GetNbinsX h_shape" by (simp_all del: upt_Suc)
    from LineShapePDF_Inr_nonneg [OF assms(1) j] j(2) show "0 \<le> GetBinContent h_shape j"
      by (simp add: GetBinContent_in)
  qed
  moreover have "\<forall>b. 0 \<le> contents ?p0 b" by (simp add: new_TH1D_def)
  ultimately have nn: "\<forall>b. 0 \<le> contents h_pdf b"
    unfolding p fill_pdf_def by (intro fold_spread_nonneg [OF assms(2) ax0])
  have "GetNbinsX ?p0 = n" by (simp add: GetNbinsX_def new_TH1D_def)
  then have "h_cdf = fold (accumulate_bin h_pdf) [1..<n + 1] ?p0"
    unfolding c fill_cdf_def by simp
  also have "\<dots> = ?p0\<lparr>contents := (\<lambda>b. if 1 \<le> b \<and> b \<le> n
                                  then contents ?p0 0 + (\<Sum>j = 1..b. contents h_pdf j)
                                  else contents ?p0 b)\<rparr>"
    by (rule fold_accumulate [OF assms(2) axp ax0]) simp
  finally have cc: "contents h_cdf b = (if 1 \<le> b \<and> b \<le> n then (\<Sum>j = 1..b. contents h_pdf j) else 0)" for b
    by (simp add: new_TH1D_def)
  have z: "contents h_cdf 0 = 0" by (simp add: cc)
  have step: "contents h_cdf i = contents h_cdf (i - 1) + contents h_pdf i
              \<and> contents h_cdf (i - 1) \<le> contents h_cdf i" if "i \<in> {1..n}" for i
  proof -
    from that obtain k where k: "i = Suc k" "k < n" by (cases i) auto
    have "contents h_cdf (Suc k) = contents h_cdf k + contents h_pdf (Suc k)"
      using k(2) by (cases k) (simp_all add: cc)
    with nn k show ?thesis by simp
  qed
  have "Integral h_pdf = (\<Sum>j = 1..n. contents h_pdf j)"
  proof -
    have "set [1..<n + 1] = {1..n}" by auto
    then show ?thesis
      unfolding Integral_def np by (simp only: interv_sum_list_conv_sum_set_nat)
  qed
  with assms(2) have last: "contents h_cdf n = Integral h_pdf" by (simp add: cc)
  from z step last show ?thesis by blast
qed

lemma spread_bin_cong:
  assumes "axis h = axis g" and "contents h i = contents g i" and "i \<le> GetNbinsX h"
  shows "spread_bin h i p = spread_bin g i p"
proof -
  from assms(1) have n: "GetNbinsX g = GetNbinsX h" by (simp add: GetNbinsX_def)
  from assms(3) n have "GetBinContent h i = contents h i" "GetBinContent g i = contents g i"
    by (simp_all add: GetBinContent_in)
  with assms(1,2) show ?thesis
    by (simp add: spread_bin_def pdf_bin_min_def pdf_bin_max_def)
qed

lemma expand_density_cong:
  assumes "axis h = axis g" and "\<And>i. 1 \<le> i \<Longrightarrow> i \<le> GetNbinsX h \<Longrightarrow> contents h i = contents g i"
  shows "expand_density n h = expand_density n g"
proof -
  from assms(1) have n: "GetNbinsX g = GetNbinsX h" by (simp add: GetNbinsX_def)
  have "fold (spread_bin h) [1..<GetNbinsX h + 1] p = fold (spread_bin g) [1..<GetNbinsX h + 1] p" for p
  proof (rule fold_cong [OF refl refl])
    fix i assume "i \<in> set [1..<GetNbinsX h + 1]"
    then have i: "1 \<le> i" "i \<le> GetNbinsX h" by (simp_all del: upt_Suc)
    from spread_bin_cong [OF assms(1) assms(2) [OF i] i(2)]
    show "spread_bin h i = spread_bin g i" by (rule ext)
  qed
  then have "fill_pdf h p = fill_pdf g p" for p by (simp add: fill_pdf_def n)
  then show ?thesis by (simp add: expand_density_def)
qed

theorem cdf_monotone_witness:
  "\<exists>h_shape h_pdf h_cdf.
       LineShapePDF ex_integ ex_storage 2 ex_small = Inr ([warn_below], h_shape)
     \<and> expand_density 2 h_shape = (h_pdf, h_cdf)
     \<and> contents h_cdf 0 = 0 \<and> contents h_cdf 1 = 1 / 2 \<and> contents h_cdf 2 = 1
     \<and> Integral h_pdf = 1"
proof -
  have m: "(2::int) \<noteq> 0" by simp
  from interpolate_total [OF valid_ex_storage, of 2] obtain out y
    where "interpolate ex_storage 2 = Inr (out, y)" by blast
  from LineShapePDF_eq [OF valid_ex_storage m this, of ex_integ ex_small]
  obtain h_shape where L: "LineShapePDF ex_integ ex_storage 2 ex_small = Inr (out, h_shape)" by blast
  obtain h_pdf h_cdf where E: "expand_density 2 h_shape = (h_pdf, h_cdf)"
    by (cases "expand_density 2 h_shape")
  have n: "0 < (2::nat)" by simp
  from cdf_monotone [OF L n E]
  have z: "contents h_cdf 0 = 0" and t: "contents h_cdf 2 = Integral h_pdf" by blast+
  have "(case LineShapePDF ex_integ ex_storage 2 ex_small of
           Inl e \<Rightarrow> None
         | Inr (w, h) \<Rightarrow> Some (w, axis h, contents h 1, contents h 2))
        = Some ([warn_below], VarBins [0, 1, 2], 1 / 2, 1 / 2)"
    by code_simp
  with L have s: "out = [warn_below]" "axis h_shape = VarBins [0, 1, 2]"
    "contents h_shape 1 = 1 / 2" "contents h_shape 2 = 1 / 2" by simp_all
  have "expand_density 2 h_shape = expand_density 2 ex_halves"
  proof (rule expand_density_cong)
    show "axis h_shape = axis ex_halves" by (simp add: s ex_halves_def)
    fix i assume "1 \<le> i" "i \<le> GetNbinsX h_shape"
    then have "i = 1 \<or> i = 2" by (auto simp: GetNbinsX_def s)
    moreover have "contents ex_halves 1 = 1 / 2" "contents ex_halves 2 = 1 / 2"
      by (simp_all add: ex_halves_def)
    ultimately show "contents h_shape i = contents ex_halves i" using s(3,4) by (elim disjE) simp_all
  qed
  with E have "h_cdf = snd (expand_density 2 ex_halves)" by simp
  moreover have "map (contents (snd (expand_density 2 ex_halves))) [1, 2] = [1 / 2, 1]"
    by code_simp
  ultimately have v: "contents h_cdf 1 = 1 / 2" "contents h_cdf 2 = 1" by simp_all
  with t have "Integral h_pdf = 1" by simp
  with L E z v s show ?thesis by blast
qed

end
